theory Spec2Isabelle
  imports Complex_Main "HOL-Library.Signed_Division"
begin

section \<open>The event-mixing categorizer (PWGDQ/Core/MixingHandler.cxx)\<close>

text \<open>
  A shallow embedding of the class \<^verbatim>\<open>MixingHandler\<close>. The C++ \<^verbatim>\<open>int\<close> has 32 bits:
  its values are HOL integers, and every sum and product that the code computes in an
  \<^verbatim>\<open>int\<close> is reduced to 32 bits in two's complement by \<open>int32\<close>. Signed overflow is
  undefined behaviour in C++; the wrap-around is what the compiled code does. Division
  and remainder are the truncating \<open>sdiv\<close> and \<open>smod\<close>, as in C++. Behaviour that C++
  leaves undefined otherwise, or that throws, is a value of the type \<open>fault\<close>. Member
  functions that are not \<^verbatim>\<open>const\<close> take the handler and return it with their result; the
  \<^verbatim>\<open>const\<close> member \<^verbatim>\<open>GetBinFromCategory\<close> only reads it. The header
  \<^verbatim>\<open>MixingHandler.h\<close> is not part of the sources: the fields are the three that both
  constructors initialise, with the types their uses require. The base class
  \<^verbatim>\<open>TNamed\<close> (name and title) takes no part in any operation and is left to the
  extension slot of the record.
\<close>

subsection \<open>The 32-bit \<^verbatim>\<open>int\<close>\<close>

definition INT_MAX :: int where
  "INT_MAX = 2147483647"

definition INT_MIN :: int where
  "INT_MIN = - 2147483648"

text \<open>The value that a 32-bit register holds after a sum or product \<open>x\<close>.\<close>

definition int32 :: "int \<Rightarrow> int" where
  "int32 x = (x + 2147483648) mod 4294967296 - 2147483648"

subsection \<open>Floating-point values under comparison\<close>

text \<open>
  The code never computes with a \<^verbatim>\<open>float\<close>, it only compares two of them. The values
  that are numbers (finite or infinite, with the two zeros identified as \<^verbatim>\<open>==\<close> does)
  are linearly ordered; \<open>NaN\<close> compares false with everything, itself included.
\<close>

datatype 'a float = NaN | Val 'a

fun fless :: "'a::linorder float \<Rightarrow> 'a float \<Rightarrow> bool" where
  "fless (Val a) (Val b) = (a < b)"
| "fless _ _ = False"

fun feq :: "'a::linorder float \<Rightarrow> 'a float \<Rightarrow> bool" where
  "feq (Val a) (Val b) = (a = b)"
| "feq _ _ = False"

fun fle :: "'a::linorder float \<Rightarrow> 'a float \<Rightarrow> bool" where
  "fle (Val a) (Val b) = (a \<le> b)"
| "fle _ _ = False"

text \<open>A bin-edge sequence is strictly ascending when each edge is below the next one.\<close>

fun ascending :: "'a::linorder float list \<Rightarrow> bool" where
  "ascending [] = True"
| "ascending [x] = True"
| "ascending (x # y # ys) = (fless x y \<and> ascending (y # ys))"

subsection \<open>The library's binary search\<close>

text \<open>
  Modelled from the spec: the search below \<^verbatim>\<open>TMath::BinarySearch\<close> belongs to the
  ROOT library and is not part of the sources. The spec calls it a binary search over
  the ascending edge sequence; \<open>lower_bound\<close> is the library's search for the first
  position in \<open>[first, first + count)\<close> whose element is not less than the value,
  halving the interval at each step.
\<close>

function lower_bound :: "'a::linorder float list \<Rightarrow> 'a float \<Rightarrow> nat \<Rightarrow> nat \<Rightarrow> nat" where
  "lower_bound array v first count =
     (if 0 < count then
        (let step = count div 2; it = first + step in
         if fless (array ! it) v then lower_bound array v (Suc it) (count - (step + 1))
         else lower_bound array v first step)
      else first)"
  by pat_completeness auto
termination
  by (relation "measure (\<lambda>(array, v, first, count). count)") auto

declare lower_bound.simps [simp del]

text \<open>
  Modelled from the spec: \<^verbatim>\<open>TMath::BinarySearch(n, array, value)\<close> belongs to the ROOT
  library and is not part of the sources. The spec has it return the position of the
  edge immediately below or equal to the value, with a "below first edge" sentinel:
  the lower-bound position when its element equals the value, the position before it
  otherwise, which is \<open>-1\<close> when the value is below the first element. On ascending
  arrays the two descriptions agree (\<open>BinarySearch_bin_iff\<close> below).
\<close>

definition BinarySearch :: "int \<Rightarrow> 'a::linorder float list \<Rightarrow> 'a float \<Rightarrow> int" where
  "BinarySearch n array v =
     (let pind = lower_bound array v 0 (nat n) in
      if pind \<noteq> nat n \<and> feq (array ! pind) v then int pind else int pind - 1)"

subsection \<open>The handler and its registration operations\<close>

text \<open>
  A \<^verbatim>\<open>TArrayF\<close> holds its size and that many floats; \<^verbatim>\<open>GetSize\<close> is the size as an
  \<^verbatim>\<open>int\<close>. The handler keeps the flag, the bin edges of every axis and the variable
  identifiers, in registration order.
\<close>

type_synonym 'a TArrayF = "'a float list"

definition GetSize :: "'a TArrayF \<Rightarrow> int" where
  "GetSize a = int (length a)"

record 'a MixingHandler =
  fIsInitialized :: bool
  fVariableLimits :: "'a TArrayF list"
  fVariables :: "int list"

text \<open>Both constructors start from the same field values.\<close>

definition MixingHandler_new :: "'a MixingHandler" where
  "MixingHandler_new = \<lparr>fIsInitialized = False, fVariableLimits = [], fVariables = []\<rparr>"

text \<open>
  What C++ leaves undefined, or reports by throwing: a negative array length, a read past
  the end of an array, a read of a local that was never assigned, a division by zero,
  and the division of \<open>INT_MIN\<close> by \<open>-1\<close>, whose quotient is no \<^verbatim>\<open>int\<close>.
\<close>

datatype fault =
  BadArrayLength | OutOfBoundsRead | UninitializedRead | DivisionByZero | DivisionOverflow

text \<open>
  Modelled from the spec: \<^verbatim>\<open>TArrayF::Set(n, array)\<close> belongs to the ROOT library and
  is not part of the sources. Registration stores the bin-edge sequence of the axis:
  \<open>Set\<close> sizes the array to \<open>n\<close> and copies the first \<open>n\<close> floats that \<open>array\<close>
  points to. The pointer is modelled by the list of floats it addresses; a negative
  \<open>n\<close> and a source shorter than \<open>n\<close> are faults.
\<close>

definition TArrayF_Set :: "int \<Rightarrow> 'a float list \<Rightarrow> fault + 'a TArrayF" where
  "TArrayF_Set n array =
     (if n < 0 then Inl BadArrayLength
      else if length array < nat n then Inl OutOfBoundsRead
      else Inr (take (nat n) array))"

text \<open>
  \<^verbatim>\<open>AddMixingVariable(int var, int nBins, float* binLims)\<close>. The usage registry of
  \<^verbatim>\<open>VarManager\<close> is not part of the sources: its state \<open>reg\<close> and the effect
  \<open>SetUseVariable\<close> of \<^verbatim>\<open>VarManager::SetUseVariable\<close> on it are parameters.
\<close>

definition AddMixingVariable ::
  "(int \<Rightarrow> 'r \<Rightarrow> 'r) \<Rightarrow> int \<Rightarrow> int \<Rightarrow> 'a float list \<Rightarrow> 'a MixingHandler \<times> 'r
     \<Rightarrow> fault + 'a MixingHandler \<times> 'r" where
  "AddMixingVariable SetUseVariable var nBins binLims s =
     (case s of (h, reg) \<Rightarrow>
        let h1 = h\<lparr>fVariables := fVariables h @ [var]\<rparr> in
        case TArrayF_Set nBins binLims of
          Inl e \<Rightarrow> Inl e
        | Inr varBins \<Rightarrow>
            Inr (h1\<lparr>fVariableLimits := fVariableLimits h1 @ [varBins]\<rparr>, SetUseVariable var reg))"

text \<open>
  \<^verbatim>\<open>AddMixingVariable(int var, int nBins, std::vector<float> binLims)\<close>: a fresh array
  of \<open>nBins\<close> floats is filled from index 0 upwards (the model grows it by one element
  per iteration) and handed to the pointer overload.
\<close>

function AddMixingVariable_copy ::
  "'a float list \<Rightarrow> int \<Rightarrow> nat \<Rightarrow> 'a float list \<Rightarrow> fault + 'a float list" where
  "AddMixingVariable_copy binLims nBins i bins =
     (if int i < nBins then
        (if i < length binLims then AddMixingVariable_copy binLims nBins (Suc i) (bins @ [binLims ! i])
         else Inl OutOfBoundsRead)
      else Inr bins)"
  by pat_completeness auto
termination
  by (relation "measure (\<lambda>(binLims, nBins, i, bins). nat nBins - i)") auto

declare AddMixingVariable_copy.simps [simp del]

definition AddMixingVariable_vector ::
  "(int \<Rightarrow> 'r \<Rightarrow> 'r) \<Rightarrow> int \<Rightarrow> int \<Rightarrow> 'a float list \<Rightarrow> 'a MixingHandler \<times> 'r
     \<Rightarrow> fault + 'a MixingHandler \<times> 'r" where
  "AddMixingVariable_vector SetUseVariable var nBins binLims s =
     (if nBins < 0 then Inl BadArrayLength
      else case AddMixingVariable_copy binLims nBins 0 [] of
        Inl e \<Rightarrow> Inl e
      | Inr bins \<Rightarrow> AddMixingVariable SetUseVariable var nBins bins s)"

subsection \<open>Queries by variable identifier\<close>

function GetMixingVariable_loop :: "int list \<Rightarrow> int \<Rightarrow> nat \<Rightarrow> int \<Rightarrow> int" where
  "GetMixingVariable_loop vars var iVar varNum =
     (if iVar < length vars then
        GetMixingVariable_loop vars var (Suc iVar) (if vars ! iVar = var then int iVar else varNum)
      else varNum)"
  by pat_completeness auto
termination
  by (relation "measure (\<lambda>(vars, var, iVar, varNum). length vars - iVar)") auto

declare GetMixingVariable_loop.simps [simp del]

definition GetMixingVariable :: "'a MixingHandler \<Rightarrow> int \<Rightarrow> int \<times> 'a MixingHandler" where
  "GetMixingVariable h var = (GetMixingVariable_loop (fVariables h) var 0 (- 1), h)"

function GetMixingVariableLimits_bins ::
  "'a TArrayF \<Rightarrow> nat \<Rightarrow> 'a float list \<Rightarrow> 'a float list" where
  "GetMixingVariableLimits_bins a iBin binLimits =
     (if int iBin < GetSize a then GetMixingVariableLimits_bins a (Suc iBin) (binLimits @ [a ! iBin])
      else binLimits)"
  by pat_completeness auto
termination
  by (relation "measure (\<lambda>(a, iBin, binLimits). length a - iBin)") (auto simp: GetSize_def)

declare GetMixingVariableLimits_bins.simps [simp del]

function GetMixingVariableLimits_loop ::
  "int list \<Rightarrow> 'a TArrayF list \<Rightarrow> int \<Rightarrow> nat \<Rightarrow> 'a float list \<Rightarrow> 'a float list" where
  "GetMixingVariableLimits_loop vars limits var iVar binLimits =
     (if iVar < length vars then
        GetMixingVariableLimits_loop vars limits var (Suc iVar)
          (if vars ! iVar = var then GetMixingVariableLimits_bins (limits ! iVar) 0 binLimits
           else binLimits)
      else binLimits)"
  by pat_completeness auto
termination
  by (relation "measure (\<lambda>(vars, limits, var, iVar, binLimits). length vars - iVar)") auto

declare GetMixingVariableLimits_loop.simps [simp del]

definition GetMixingVariableLimits ::
  "'a MixingHandler \<Rightarrow> int \<Rightarrow> 'a float list \<times> 'a MixingHandler" where
  "GetMixingVariableLimits h var =
     (GetMixingVariableLimits_loop (fVariables h) (fVariableLimits h) var 0 [], h)"

subsection \<open>Initialization and categorization\<close>

function Init_loop :: "int list \<Rightarrow> 'a TArrayF list \<Rightarrow> nat \<Rightarrow> int \<Rightarrow> int" where
  "Init_loop vars limits iVar size' =
     (if iVar < length vars then
        Init_loop vars limits (Suc iVar) (int32 (size' * (GetSize (limits ! iVar) - 1)))
      else size')"
  by pat_completeness auto
termination
  by (relation "measure (\<lambda>(vars, limits, iVar, size'). length vars - iVar)") auto

declare Init_loop.simps [simp del]

text \<open>The local \<open>size\<close> (here \<open>size'\<close>) is computed and dropped; the flag is the only field written.\<close>

definition Init :: "'a MixingHandler \<Rightarrow> 'a MixingHandler" where
  "Init h = (let size' = Init_loop (fVariables h) (fVariableLimits h) 0 1
             in h\<lparr>fIsInitialized := True\<rparr>)"

text \<open>
  The first loop of \<^verbatim>\<open>FindEventCategory\<close>: one bin per axis, \<open>None\<close> for the early
  \<^verbatim>\<open>return -1\<close>. The observable vector \<^verbatim>\<open>float* values\<close> is a function of the
  variable identifier.
\<close>

function FindEventCategory_bins ::
  "int list \<Rightarrow> 'a::linorder TArrayF list \<Rightarrow> (int \<Rightarrow> 'a float) \<Rightarrow> nat \<Rightarrow> int list
     \<Rightarrow> int list option" where
  "FindEventCategory_bins vars limits values i bin =
     (if i < length vars then
        (let binValue = BinarySearch (GetSize (limits ! i)) (limits ! i) (values (vars ! i));
             bin' = bin @ [binValue]
         in if bin' ! i = - 1 \<or> bin' ! i = GetSize (limits ! i) - 1 then None
            else FindEventCategory_bins vars limits values (Suc i) bin')
      else Some bin)"
  by pat_completeness auto
termination
  by (relation "measure (\<lambda>(vars, limits, values, i, bin). length vars - i)") auto

declare FindEventCategory_bins.simps [simp del]

text \<open>The second loop nest: the inner product \<open>tempCategory\<close> and the outer sum.\<close>

function FindEventCategory_temp ::
  "int list \<Rightarrow> 'a TArrayF list \<Rightarrow> int list \<Rightarrow> nat \<Rightarrow> nat \<Rightarrow> int \<Rightarrow> int" where
  "FindEventCategory_temp vars limits bin iVar iVar2 tempCategory =
     (if iVar2 < length vars then
        FindEventCategory_temp vars limits bin iVar (Suc iVar2)
          (if iVar2 = iVar then int32 (tempCategory * bin ! iVar2)
           else int32 (tempCategory * (GetSize (limits ! iVar2) - 1)))
      else tempCategory)"
  by pat_completeness auto
termination
  by (relation "measure (\<lambda>(vars, limits, bin, iVar, iVar2, t). length vars - iVar2)") auto

declare FindEventCategory_temp.simps [simp del]

function FindEventCategory_sum ::
  "int list \<Rightarrow> 'a TArrayF list \<Rightarrow> int list \<Rightarrow> nat \<Rightarrow> int \<Rightarrow> int" where
  "FindEventCategory_sum vars limits bin iVar category =
     (if iVar < length vars then
        FindEventCategory_sum vars limits bin (Suc iVar)
          (int32 (category + FindEventCategory_temp vars limits bin iVar iVar 1))
      else category)"
  by pat_completeness auto
termination
  by (relation "measure (\<lambda>(vars, limits, bin, iVar, category). length vars - iVar)") auto

declare FindEventCategory_sum.simps [simp del]

definition FindEventCategory ::
  "'a::linorder MixingHandler \<Rightarrow> (int \<Rightarrow> 'a float) \<Rightarrow> int \<times> 'a MixingHandler" where
  "FindEventCategory h values =
     (if length (fVariables h) = 0 then (- 1, h)
      else
        let h' = (if \<not> fIsInitialized h then Init h else h) in
        case FindEventCategory_bins (fVariables h') (fVariableLimits h') values 0 [] of
          None \<Rightarrow> (- 1, h')
        | Some bin \<Rightarrow> (FindEventCategory_sum (fVariables h') (fVariableLimits h') bin 0 0, h'))"

subsection \<open>Decoding a category\<close>

text \<open>
  The local \<open>tempVar\<close> is declared without a value: \<open>None\<close> until the scan assigns it.
  Reading it unassigned, and dividing by a zero \<open>norm\<close> (here \<open>norm'\<close>) or a zero bin
  count, are faults. The difference \<open>category - category % norm\<close> lies between 0 and
  \<open>category\<close> and cannot overflow.
\<close>

function GetBinFromCategory_scan :: "int list \<Rightarrow> int \<Rightarrow> nat \<Rightarrow> nat option \<Rightarrow> nat option" where
  "GetBinFromCategory_scan vars var i tempVar =
     (if i < length vars then
        GetBinFromCategory_scan vars var (Suc i) (if vars ! i = var then Some i else tempVar)
      else tempVar)"
  by pat_completeness auto
termination
  by (relation "measure (\<lambda>(vars, var, i, tempVar). length vars - i)") auto

declare GetBinFromCategory_scan.simps [simp del]

function GetBinFromCategory_norm :: "'a TArrayF list \<Rightarrow> nat \<Rightarrow> nat \<Rightarrow> int \<Rightarrow> int" where
  "GetBinFromCategory_norm limits tempVar i norm' =
     (if tempVar < i then
        GetBinFromCategory_norm limits tempVar (i - 1) (int32 (norm' * (GetSize (limits ! i) - 1)))
      else norm')"
  by pat_completeness auto
termination
  by (relation "measure (\<lambda>(limits, tempVar, i, norm'). i)") auto

declare GetBinFromCategory_norm.simps [simp del]

definition GetBinFromCategory :: "'a MixingHandler \<Rightarrow> int \<Rightarrow> int \<Rightarrow> fault + int" where
  "GetBinFromCategory h var category =
     (if length (fVariables h) = 0 then Inr (- 1)
      else case GetBinFromCategory_scan (fVariables h) var 0 None of
        None \<Rightarrow> Inl UninitializedRead
      | Some tempVar \<Rightarrow>
          let norm' = GetBinFromCategory_norm (fVariableLimits h) tempVar (length (fVariables h) - 1) 1 in
          if norm' = 0 then Inl DivisionByZero
          else if category = INT_MIN \<and> norm' = - 1 then Inl DivisionOverflow
          else
            let truncatedCategory = category - (category smod norm');
                truncatedCategory = truncatedCategory sdiv norm' in
            if GetSize (fVariableLimits h ! tempVar) - 1 = 0 then Inl DivisionByZero
            else if truncatedCategory = INT_MIN \<and> GetSize (fVariableLimits h ! tempVar) - 1 = - 1
              then Inl DivisionOverflow
            else Inr (truncatedCategory smod (GetSize (fVariableLimits h ! tempVar) - 1)))"

text \<open>
  The two vectors grow together, so every reachable handler holds one edge sequence per
  registered identifier.
\<close>

definition consistent :: "'a MixingHandler \<Rightarrow> bool" where
  "consistent h \<longleftrightarrow> length (fVariableLimits h) = length (fVariables h)"

text \<open>A value is in range for an axis when it lies in \<open>[firstEdge, lastEdge)\<close>.\<close>

definition in_range :: "'a::linorder TArrayF \<Rightarrow> 'a float \<Rightarrow> bool" where
  "in_range edges v \<longleftrightarrow> edges \<noteq> [] \<and> fle (hd edges) v \<and> fless v (last edges)"

text \<open>Every registered value is in range for its axis.\<close>

definition values_in_range :: "'a::linorder MixingHandler \<Rightarrow> (int \<Rightarrow> 'a float) \<Rightarrow> bool" where
  "values_in_range h vals \<longleftrightarrow>
     list_all (\<lambda>i. in_range (fVariableLimits h ! i) (vals (fVariables h ! i)))
       [0..<length (fVariables h)]"

text \<open>Every registered axis has strictly ascending edges.\<close>

definition ascending_axes :: "'a::linorder MixingHandler \<Rightarrow> bool" where
  "ascending_axes h \<longleftrightarrow> list_all ascending (fVariableLimits h)"

text \<open>The bin count of axis \<open>j\<close> is its edge count minus one.\<close>

definition binCount :: "'a TArrayF list \<Rightarrow> nat \<Rightarrow> int" where
  "binCount limits j = GetSize (limits ! j) - 1"

text \<open>The bin that \<^verbatim>\<open>FindEventCategory\<close> computes for axis \<open>i\<close> (its local \<open>binValue\<close>).\<close>

definition binValue ::
  "int list \<Rightarrow> 'a::linorder TArrayF list \<Rightarrow> (int \<Rightarrow> 'a float) \<Rightarrow> nat \<Rightarrow> int" where
  "binValue vars limits values i =
     BinarySearch (GetSize (limits ! i)) (limits ! i) (values (vars ! i))"

text \<open>
  A search for \<open>v\<close> only needs the elements below \<open>v\<close> to come first; ascending arrays
  have this property for every \<open>v\<close>.
\<close>

definition down_closed :: "'a::linorder float list \<Rightarrow> 'a float \<Rightarrow> bool" where
  "down_closed array v \<longleftrightarrow>
     (\<forall>i j. i \<le> j \<and> j < length array \<and> fless (array ! j) v \<longrightarrow> fless (array ! i) v)"

subsection \<open>Sequences of queries\<close>

text \<open>
  The four query operations of the class, and the handler that a query, or a sequence of
  queries issued one after the other, leaves behind. \<^verbatim>\<open>GetBinFromCategory\<close> is a
  \<^verbatim>\<open>const\<close> member: the handler after it is the handler before it.
\<close>

datatype 'a query =
    Q_FindEventCategory "int \<Rightarrow> 'a float"
  | Q_GetBinFromCategory int int
  | Q_GetMixingVariable int
  | Q_GetMixingVariableLimits int

fun query_state :: "'a::linorder query \<Rightarrow> 'a MixingHandler \<Rightarrow> 'a MixingHandler" where
  "query_state (Q_FindEventCategory vals) h = snd (FindEventCategory h vals)"
| "query_state (Q_GetBinFromCategory var category) h = h"
| "query_state (Q_GetMixingVariable var) h = snd (GetMixingVariable h var)"
| "query_state (Q_GetMixingVariableLimits var) h = snd (GetMixingVariableLimits h var)"

fun queries_state :: "'a::linorder query list \<Rightarrow> 'a MixingHandler \<Rightarrow> 'a MixingHandler" where
  "queries_state [] h = h"
| "queries_state (q # qs) h = queries_state qs (query_state q h)"

subsection \<open>Concrete configurations\<close>

text \<open>
  Two axes, registered in this order: identifier 0 with edges \<open>[0, 10, 20, 30]\<close> and
  identifier 1 with edges \<open>[-1, 1]\<close>; an observable vector holding \<open>x\<close> for
  identifier 0 and \<open>y\<close> for identifier 1.
\<close>

definition scenario :: "real MixingHandler" where
  "scenario = \<lparr>fIsInitialized = False,
                fVariableLimits = [[Val 0, Val 10, Val 20, Val 30], [Val (- 1), Val 1]],
                fVariables = [0, 1]\<rparr>"

definition observables :: "real \<Rightarrow> real \<Rightarrow> int \<Rightarrow> real float" where
  "observables x y = (\<lambda>var. NaN)(0 := Val x, 1 := Val y)"

text \<open>A handler where identifier 5 was registered twice.\<close>

definition duplicated :: "real MixingHandler" where
  "duplicated = \<lparr>fIsInitialized = False,
                  fVariableLimits = [[Val 0, Val 1], [Val 0, Val 2], [Val 0, Val 3]],
                  fVariables = [5, 7, 5]\<rparr>"

text \<open>
  Sixteen and seventeen axes of four bins each, with edges \<open>[0, 1, 2, 3, 4]\<close> and the
  identifiers \<open>0, 1, 2, ...\<close>: their grids have \<open>4^16\<close> and \<open>4^17\<close> cells, more than a
  32-bit \<^verbatim>\<open>int\<close> holds.
\<close>

definition sixteen_axes :: "real MixingHandler" where
  "sixteen_axes = \<lparr>fIsInitialized = False,
     fVariableLimits = replicate 16 [Val 0, Val 1, Val 2, Val 3, Val 4],
     fVariables = [0, 1, 2, 3, 4, 5, 6, 7, 8, 9, 10, 11, 12, 13, 14, 15]\<rparr>"

definition seventeen_axes :: "real MixingHandler" where
  "seventeen_axes = \<lparr>fIsInitialized = False,
     fVariableLimits = replicate 17 [Val 0, Val 1, Val 2, Val 3, Val 4],
     fVariables = [0, 1, 2, 3, 4, 5, 6, 7, 8, 9, 10, 11, 12, 13, 14, 15, 16]\<rparr>"

text \<open>
  Two observable vectors for them: the value 3 for every identifier, and the value 2
  for identifier 0 with 0 for all the others.
\<close>

definition all_threes :: "int \<Rightarrow> real float" where
  "all_threes var = Val 3"

definition two_then_zeros :: "int \<Rightarrow> real float" where
  "two_then_zeros var = (if var = 0 then Val 2 else Val 0)"

text \<open>One axis that was registered with a single edge, so with no bin.\<close>

definition one_edge :: "real MixingHandler" where
  "one_edge = \<lparr>fIsInitialized = False, fVariableLimits = [[Val 0]], fVariables = [5]\<rparr>"

section \<open>Properties\<close>

subsection \<open>Comparison of floats\<close>

lemma fless_trans: "fless a b \<Longrightarrow> fless b c \<Longrightarrow> fless a c"
  by (cases a; cases b; cases c) auto

lemma fle_iff: "fle a b \<longleftrightarrow> fless a b \<or> feq a b"
  by (cases a; cases b) auto

lemma fless_total: "fless a b \<or> feq a b \<or> fless b a \<or> a = NaN \<or> b = NaN"
  by (cases a; cases b) auto

lemma fless_not_NaN: "fless a b \<Longrightarrow> a \<noteq> NaN \<and> b \<noteq> NaN"
  by (cases a; cases b) auto

lemma fless_asym: "fless a b \<Longrightarrow> \<not> fle b a"
  by (cases a; cases b) auto

lemma fle_fless_trans: "fle a b \<Longrightarrow> fless b c \<Longrightarrow> fless a c"
  by (cases a; cases b; cases c) auto

lemma fless_fle_trans: "fless a b \<Longrightarrow> fle b c \<Longrightarrow> fless a c"
  by (cases a; cases b; cases c) auto

lemma fle_not_fless: "fle a b \<Longrightarrow> \<not> fless b a"
  by (cases a; cases b) auto

lemma ascending_sorted_wrt: "ascending xs \<longleftrightarrow> sorted_wrt fless xs"
proof (induction xs rule: ascending.induct)
  case (3 x y ys)
  then show ?case by (auto intro: fless_trans)
qed simp_all

lemma ascending_nth: "ascending xs \<Longrightarrow> i < j \<Longrightarrow> j < length xs \<Longrightarrow> fless (xs ! i) (xs ! j)"
  by (simp add: ascending_sorted_wrt sorted_wrt_iff_nth_less)

subsection \<open>The binary search\<close>

lemma lower_bound_0: "lower_bound array v first 0 = first"
  by (subst lower_bound.simps) simp

lemma lower_bound_less:
  "0 < count \<Longrightarrow> fless (array ! (first + count div 2)) v \<Longrightarrow>
   lower_bound array v first count =
     lower_bound array v (Suc (first + count div 2)) (count - (count div 2 + 1))"
  by (subst lower_bound.simps) (simp add: Let_def)

lemma lower_bound_not_less:
  "0 < count \<Longrightarrow> \<not> fless (array ! (first + count div 2)) v \<Longrightarrow>
   lower_bound array v first count = lower_bound array v first (count div 2)"
  by (subst lower_bound.simps) (simp add: Let_def)

lemma lower_bound_range:
  "first \<le> lower_bound array v first count \<and> lower_bound array v first count \<le> first + count"
proof (induction array v first count rule: lower_bound.induct)
  case (1 array v first count)
  show ?case
  proof (cases "0 < count")
    case False
    then show ?thesis by (simp add: lower_bound_0)
  next
    case True
    show ?thesis
    proof (cases "fless (array ! (first + count div 2)) v")
      case True
      with \<open>0 < count\<close> "1.IH"(1)[OF \<open>0 < count\<close> refl refl True] show ?thesis
        unfolding lower_bound_less [OF \<open>0 < count\<close> True] by linarith
    next
      case False
      with \<open>0 < count\<close> "1.IH"(2)[OF \<open>0 < count\<close> refl refl False] show ?thesis
        unfolding lower_bound_not_less [OF \<open>0 < count\<close> False] by linarith
    qed
  qed
qed

lemma ascending_down_closed: "ascending array \<Longrightarrow> down_closed array v"
  unfolding down_closed_def
  by (metis ascending_nth fless_trans le_neq_implies_less)

lemma lower_bound_partition:
  assumes "down_closed array v" "first + count \<le> length array"
  shows "(\<forall>i. first \<le> i \<and> i < lower_bound array v first count \<longrightarrow> fless (array ! i) v) \<and>
         (\<forall>i. lower_bound array v first count \<le> i \<and> i < first + count \<longrightarrow> \<not> fless (array ! i) v)"
  using assms
proof (induction array v first count rule: lower_bound.induct)
  case (1 array v first count)
  show ?case
  proof (cases "0 < count")
    case False
    then show ?thesis by (auto simp: lower_bound_0)
  next
    case pos: True
    let ?it = "first + count div 2"
    show ?thesis
    proof (cases "fless (array ! ?it) v")
      case True
      have eq: "lower_bound array v first count = lower_bound array v (Suc ?it) (count - (count div 2 + 1))"
        using pos True by (rule lower_bound_less)
      have le: "Suc ?it + (count - (count div 2 + 1)) \<le> length array"
        using "1.prems"(2) pos by linarith
      have sum: "Suc ?it + (count - (count div 2 + 1)) = first + count"
        using pos by linarith
      note IH = "1.IH"(1)[OF pos refl refl True "1.prems"(1) le]
      have it: "?it < length array"
        using "1.prems"(2) pos by linarith
      have low: "fless (array ! i) v" if "i \<le> ?it" for i
        using that True it "1.prems"(1) unfolding down_closed_def by blast
      show ?thesis unfolding eq sum [symmetric]
      proof (intro conjI allI impI)
        fix i assume "first \<le> i \<and> i < lower_bound array v (Suc ?it) (count - (count div 2 + 1))"
        then show "fless (array ! i) v"
          using IH low [of i] by (cases "i \<le> ?it") (auto simp: not_le Suc_le_eq)
      next
        fix i assume "lower_bound array v (Suc ?it) (count - (count div 2 + 1)) \<le> i \<and>
          i < Suc ?it + (count - (count div 2 + 1))"
        then show "\<not> fless (array ! i) v"
          using IH by blast
      qed
    next
      case False
      have eq: "lower_bound array v first count = lower_bound array v first (count div 2)"
        using pos False by (rule lower_bound_not_less)
      have le: "first + count div 2 \<le> length array"
        using "1.prems"(2) by linarith
      note IH = "1.IH"(2)[OF pos refl refl False "1.prems"(1) le]
      have high: "\<not> fless (array ! i) v" if "?it \<le> i" "i < length array" for i
        using that False "1.prems"(1) unfolding down_closed_def by blast
      show ?thesis unfolding eq
      proof (intro conjI allI impI)
        fix i assume "first \<le> i \<and> i < lower_bound array v first (count div 2)"
        then show "fless (array ! i) v"
          using IH by blast
      next
        fix i assume a: "lower_bound array v first (count div 2) \<le> i \<and> i < first + count"
        show "\<not> fless (array ! i) v"
        proof (cases "i < ?it")
          case True
          with a IH show ?thesis by blast
        next
          case False
          with a "1.prems"(2) high [of i] show ?thesis by simp
        qed
      qed
    qed
  qed
qed

lemma feq_fless: "feq a b \<Longrightarrow> fless a c \<Longrightarrow> fless b c"
  by (cases a; cases b; cases c) auto

lemma BinarySearch_range:
  "- 1 \<le> BinarySearch (int k) array v \<and> BinarySearch (int k) array v \<le> int k - 1"
  using lower_bound_range [of 0 array v k]
  by (auto simp: BinarySearch_def Let_def)

lemma BinarySearch_ascending:
  fixes v :: "'a::linorder float"
  assumes asc: "ascending array"
  defines "r \<equiv> BinarySearch (int (length array)) array v"
  shows "(0 \<le> r \<longrightarrow> fle (array ! nat r) v \<and>
            (nat r + 1 < length array \<longrightarrow> fless v (array ! (nat r + 1)))) \<and>
         (r = - 1 \<longrightarrow> array = [] \<or> \<not> fle (array ! 0) v)"
proof -
  define p where "p = lower_bound array v 0 (length array)"
  have pk: "p \<le> length array"
    using lower_bound_range [of 0 array v "length array"] by (simp add: p_def)
  have part: "\<forall>i. i < p \<longrightarrow> fless (array ! i) v"
    "\<forall>i. p \<le> i \<and> i < length array \<longrightarrow> \<not> fless (array ! i) v"
    using lower_bound_partition [OF ascending_down_closed [OF asc], of 0 "length array" v]
    by (simp_all add: p_def)
  show ?thesis
  proof (cases "p \<noteq> length array \<and> feq (array ! p) v")
    case True
    then have r: "r = int p"
      by (simp add: r_def BinarySearch_def p_def [symmetric])
    have "fle (array ! p) v"
      using True by (simp add: fle_iff)
    moreover have "fless v (array ! (p + 1))" if "p + 1 < length array"
      using ascending_nth [OF asc, of p "p + 1"] that True by (auto intro: feq_fless)
    ultimately show ?thesis by (simp add: r)
  next
    case False
    then have r: "r = int p - 1"
      by (auto simp add: r_def BinarySearch_def p_def [symmetric])
    show ?thesis
    proof (cases p)
      case 0
      have "\<not> fle (array ! 0) v" if "array \<noteq> []"
        using that False part(2) 0 by (auto simp: fle_iff)
      then show ?thesis using 0 r by auto
    next
      case (Suc q)
      have lt: "fless (array ! q) v"
        using part(1) Suc by simp
      have "fless v (array ! Suc q)" if "Suc q < length array"
      proof -
        have "fless (array ! q) (array ! Suc q)"
          using ascending_nth [OF asc, of q "Suc q"] that by simp
        moreover have "\<not> fless (array ! Suc q) v" "\<not> feq (array ! Suc q) v"
          using part(2) False that Suc by auto
        ultimately show ?thesis
          using lt fless_total [of "array ! Suc q" v] by (auto dest: fless_not_NaN)
      qed
      then show ?thesis using lt Suc r by (auto simp: fle_iff)
    qed
  qed
qed

lemma BinarySearch_bin_iff:
  assumes asc: "ascending array" and i: "i + 1 < length array"
  shows "BinarySearch (int (length array)) array v = int i
         \<longleftrightarrow> fle (array ! i) v \<and> fless v (array ! (i + 1))"
proof
  assume "BinarySearch (int (length array)) array v = int i"
  then show "fle (array ! i) v \<and> fless v (array ! (i + 1))"
    using BinarySearch_ascending [OF asc, of v] i by auto
next
  assume a: "fle (array ! i) v \<and> fless v (array ! (i + 1))"
  define r where "r = BinarySearch (int (length array)) array v"
  have rng: "- 1 \<le> r" "r \<le> int (length array) - 1"
    using BinarySearch_range [of "length array" array v] by (simp_all add: r_def)
  note spec = BinarySearch_ascending [OF asc, of v, folded r_def]
  have mono: "fle (array ! j) (array ! k)" if "j \<le> k" "k < length array" "array ! k \<noteq> NaN" for j k
  proof (cases "j = k")
    case True
    with that show ?thesis by (cases "array ! k") auto
  next
    case False
    with that ascending_nth [OF asc, of j k] show ?thesis by (auto simp: fle_iff)
  qed
  have vi: "array ! i \<noteq> NaN" using a by (cases "array ! i") auto
  show "BinarySearch (int (length array)) array v = int i"
  proof (rule ccontr)
    assume "BinarySearch (int (length array)) array v \<noteq> int i"
    then consider "r = - 1" | "0 \<le> r" "nat r < i" | "0 \<le> r" "i < nat r"
      using rng by (fold r_def) linarith
    then show False
    proof cases
      case 1
      then have "\<not> fle (array ! 0) v" using spec i by auto
      moreover have "fle (array ! 0) (array ! i)" using mono [of 0 i] i vi by simp
      ultimately show False using a
        by (cases "array ! 0"; cases "array ! i"; cases v) auto
    next
      case 2
      then have "fless v (array ! (nat r + 1))" using spec i by auto
      moreover have "fle (array ! (nat r + 1)) (array ! i)"
        using mono [of "nat r + 1" i] 2 i vi by simp
      ultimately show False using a
        by (cases "array ! (nat r + 1)"; cases "array ! i"; cases v) auto
    next
      case 3
      then have "fle (array ! nat r) v" using spec by auto
      moreover have "nat r < length array" using rng 3 by linarith
      moreover have "array ! nat r \<noteq> NaN" using \<open>fle (array ! nat r) v\<close> by (cases "array ! nat r") auto
      ultimately have "fle (array ! (i + 1)) (array ! nat r)"
        using mono [of "i + 1" "nat r"] 3 by simp
      then show False using a \<open>fle (array ! nat r) v\<close>
        by (cases "array ! (i + 1)"; cases "array ! nat r"; cases v) auto
    qed
  qed
qed

lemma ascending_fle_mono:
  assumes "ascending array" "j \<le> k" "k < length array" "fle (array ! k) v"
  shows "fle (array ! j) v"
proof (cases "j = k")
  case True
  with assms show ?thesis by simp
next
  case False
  then have "fless (array ! j) (array ! k)"
    using assms ascending_nth [of array j k] by simp
  with assms(4) show ?thesis
    by (cases "array ! j"; cases "array ! k"; cases v) auto
qed

lemma ascending_fless_mono:
  assumes "ascending array" "j \<le> k" "k < length array" "fless v (array ! j)"
  shows "fless v (array ! k)"
proof (cases "j = k")
  case True
  with assms show ?thesis by simp
next
  case False
  then have "fless (array ! j) (array ! k)"
    using assms ascending_nth [of array j k] by simp
  with assms(4) show ?thesis by (blast intro: fless_trans)
qed

lemma BinarySearch_in_range:
  assumes asc: "ascending edges"
  shows "(BinarySearch (GetSize edges) edges v = - 1 \<or>
          BinarySearch (GetSize edges) edges v = GetSize edges - 1) \<longleftrightarrow> \<not> in_range edges v"
proof (cases "edges = []")
  case True
  then show ?thesis
    using BinarySearch_range [of 0 edges v] by (simp add: in_range_def GetSize_def)
next
  case False
  define k where "k = length edges"
  define r where "r = BinarySearch (int k) edges v"
  have k: "0 < k" using False by (simp add: k_def)
  have hd: "hd edges = edges ! 0" and last: "last edges = edges ! (k - 1)"
    using False by (simp_all add: hd_conv_nth last_conv_nth k_def)
  have rng: "- 1 \<le> r" "r \<le> int k - 1"
    using BinarySearch_range [of k edges v] by (simp_all add: r_def)
  have spec: "(0 \<le> r \<longrightarrow> fle (edges ! nat r) v \<and>
            (nat r + 1 < k \<longrightarrow> fless v (edges ! (nat r + 1)))) \<and>
         (r = - 1 \<longrightarrow> edges = [] \<or> \<not> fle (edges ! 0) v)"
    using BinarySearch_ascending [OF asc, of v] unfolding k_def r_def .
  have "(r = - 1 \<or> r = int k - 1) \<longleftrightarrow> \<not> (fle (edges ! 0) v \<and> fless v (edges ! (k - 1)))"
  proof
    assume "r = - 1 \<or> r = int k - 1"
    then show "\<not> (fle (edges ! 0) v \<and> fless v (edges ! (k - 1)))"
    proof
      assume "r = - 1"
      then show ?thesis using spec False by simp
    next
      assume e: "r = int k - 1"
      then have "nat r = k - 1" "0 \<le> r" using k by simp_all
      then have "fle (edges ! (k - 1)) v" using spec by simp
      then show ?thesis by (auto dest: fle_not_fless)
    qed
  next
    assume out: "\<not> (fle (edges ! 0) v \<and> fless v (edges ! (k - 1)))"
    show "r = - 1 \<or> r = int k - 1"
    proof (rule ccontr)
      assume "\<not> (r = - 1 \<or> r = int k - 1)"
      then have r: "0 \<le> r" "nat r + 1 < k" using rng by linarith+
      then have a: "fle (edges ! nat r) v" and b: "fless v (edges ! (nat r + 1))"
        using spec by simp_all
      have "fle (edges ! 0) v"
        using ascending_fle_mono [OF asc _ _ a, of 0] r by (simp add: k_def)
      moreover have "fless v (edges ! (k - 1))"
        using ascending_fless_mono [OF asc _ _ b, of "k - 1"] r by (simp add: k_def)
      ultimately show False using out by simp
    qed
  qed
  then show ?thesis
    by (simp add: in_range_def False hd last GetSize_def k_def [symmetric] r_def [symmetric])
qed

subsection \<open>Sums and products that stay within 32 bits\<close>

lemma int32_id: "- 2147483648 \<le> x \<Longrightarrow> x \<le> 2147483647 \<Longrightarrow> int32 x = x"
  by (simp add: int32_def)

lemma int32_abs: "\<bar>x\<bar> \<le> INT_MAX \<Longrightarrow> int32 x = x"
  by (rule int32_id) (simp_all add: INT_MAX_def)

lemma abs_le_abs_mult:
  fixes a k :: int
  assumes "k \<noteq> 0"
  shows "\<bar>a\<bar> \<le> \<bar>a * k\<bar>"
proof -
  have "1 \<le> \<bar>k\<bar>" using assms by simp
  then have "\<bar>a\<bar> * 1 \<le> \<bar>a\<bar> * \<bar>k\<bar>" by (intro mult_left_mono) simp_all
  then show ?thesis by (simp add: abs_mult)
qed

lemma prod_nonzero:
  fixes g :: "nat \<Rightarrow> int"
  shows "\<forall>j. m \<le> j \<and> j < n \<longrightarrow> g j \<noteq> 0 \<Longrightarrow> (\<Prod>j = m..<n. g j) \<noteq> 0"
  by (simp add: prod_zero_iff)

lemma abs_prod_suffix_le:
  fixes b :: "nat \<Rightarrow> int"
  assumes "k \<le> n" "\<forall>j<k. b j \<noteq> 0"
  shows "\<bar>\<Prod>j = k..<n. b j\<bar> \<le> \<bar>\<Prod>j = 0..<n. b j\<bar>"
proof -
  have "(\<Prod>j = 0..<n. b j) = (\<Prod>j = k..<n. b j) * (\<Prod>j = 0..<k. b j)"
    using prod.atLeastLessThan_concat [of 0 k n b] assms(1) by (simp add: mult.commute)
  moreover have "(\<Prod>j = 0..<k. b j) \<noteq> 0"
    using assms(2) by (simp add: prod_zero_iff)
  ultimately show ?thesis using abs_le_abs_mult [of "\<Prod>j = 0..<k. b j" "\<Prod>j = k..<n. b j"] by simp
qed

subsection \<open>The loops in closed form\<close>

lemma GetMixingVariable_loop_absent:
  "\<forall>j. iVar \<le> j \<and> j < length vars \<longrightarrow> vars ! j \<noteq> var \<Longrightarrow>
   GetMixingVariable_loop vars var iVar varNum = varNum"
proof (induction vars var iVar varNum rule: GetMixingVariable_loop.induct)
  case (1 vars var iVar varNum)
  show ?case
  proof (cases "iVar < length vars")
    case True
    then have "vars ! iVar \<noteq> var" using "1.prems" by simp
    moreover have "GetMixingVariable_loop vars var (Suc iVar) varNum = varNum"
      using "1.IH" [OF True] "1.prems" \<open>vars ! iVar \<noteq> var\<close> by simp
    ultimately show ?thesis using True by (subst GetMixingVariable_loop.simps) simp
  next
    case False
    then show ?thesis by (subst GetMixingVariable_loop.simps) simp
  qed
qed

lemma GetMixingVariable_loop_last:
  "iVar \<le> k \<Longrightarrow> k < length vars \<Longrightarrow> vars ! k = var \<Longrightarrow>
   \<forall>j. k < j \<and> j < length vars \<longrightarrow> vars ! j \<noteq> var \<Longrightarrow>
   GetMixingVariable_loop vars var iVar varNum = int k"
proof (induction vars var iVar varNum rule: GetMixingVariable_loop.induct)
  case (1 vars var iVar varNum)
  have lt: "iVar < length vars" using "1.prems" by simp
  show ?case
  proof (cases "iVar = k")
    case True
    have "GetMixingVariable_loop vars var (Suc k) (int k) = int k"
      using "1.prems"(4) by (intro GetMixingVariable_loop_absent) (simp add: Suc_le_eq)
    then show ?thesis using lt True "1.prems"(3)
      by (subst GetMixingVariable_loop.simps) simp
  next
    case False
    then have "Suc iVar \<le> k" using "1.prems"(1) by simp
    from "1.IH" [OF lt this "1.prems"(2,3,4)] show ?thesis using lt
      by (subst GetMixingVariable_loop.simps) simp
  qed
qed

lemma last_occurrence:
  assumes "var \<in> set vars"
  shows "\<exists>k<length vars. vars ! k = var \<and> (\<forall>j. k < j \<and> j < length vars \<longrightarrow> vars ! j \<noteq> var)"
proof -
  let ?P = "\<lambda>k. k < length vars \<and> vars ! k = var"
  from assms obtain k0 where "?P k0" by (auto simp: in_set_conv_nth)
  moreover have "\<forall>y. ?P y \<longrightarrow> y \<le> length vars" by simp
  ultimately have g: "?P (Greatest ?P)" and m: "\<forall>y. ?P y \<longrightarrow> y \<le> Greatest ?P"
    using GreatestI_nat [of ?P k0 "length vars"] Greatest_le_nat [of ?P _ "length vars"] by blast+
  show ?thesis
    by (rule exI [of _ "Greatest ?P"]) (use g m in \<open>auto simp: not_le [symmetric]\<close>)
qed

lemma GetBinFromCategory_scan_absent:
  "\<forall>j. i \<le> j \<and> j < length vars \<longrightarrow> vars ! j \<noteq> var \<Longrightarrow>
   GetBinFromCategory_scan vars var i tempVar = tempVar"
proof (induction vars var i tempVar rule: GetBinFromCategory_scan.induct)
  case (1 vars var i tempVar)
  show ?case
  proof (cases "i < length vars")
    case True
    then have "vars ! i \<noteq> var" using "1.prems" by simp
    moreover have "GetBinFromCategory_scan vars var (Suc i) tempVar = tempVar"
      using "1.IH" [OF True] "1.prems" \<open>vars ! i \<noteq> var\<close> by simp
    ultimately show ?thesis using True by (subst GetBinFromCategory_scan.simps) simp
  next
    case False
    then show ?thesis by (subst GetBinFromCategory_scan.simps) simp
  qed
qed

lemma GetBinFromCategory_scan_last:
  "i \<le> k \<Longrightarrow> k < length vars \<Longrightarrow> vars ! k = var \<Longrightarrow>
   \<forall>j. k < j \<and> j < length vars \<longrightarrow> vars ! j \<noteq> var \<Longrightarrow>
   GetBinFromCategory_scan vars var i tempVar = Some k"
proof (induction vars var i tempVar rule: GetBinFromCategory_scan.induct)
  case (1 vars var i tempVar)
  have lt: "i < length vars" using "1.prems" by simp
  show ?case
  proof (cases "i = k")
    case True
    have "GetBinFromCategory_scan vars var (Suc k) (Some k) = Some k"
      using "1.prems"(4) by (intro GetBinFromCategory_scan_absent) (simp add: Suc_le_eq)
    then show ?thesis using lt True "1.prems"(3)
      by (subst GetBinFromCategory_scan.simps) simp
  next
    case False
    then have "Suc i \<le> k" using "1.prems"(1) by simp
    from "1.IH" [OF lt this "1.prems"(2,3,4)] show ?thesis using lt
      by (subst GetBinFromCategory_scan.simps) simp
  qed
qed

lemma GetBinFromCategory_scan_iff:
  "GetBinFromCategory_scan vars var 0 None \<noteq> None \<longleftrightarrow> var \<in> set vars"
proof (cases "var \<in> set vars")
  case True
  from last_occurrence [OF this] obtain k where
    "k < length vars" "vars ! k = var" "\<forall>j. k < j \<and> j < length vars \<longrightarrow> vars ! j \<noteq> var"
    by blast
  then have "GetBinFromCategory_scan vars var 0 None = Some k"
    by (intro GetBinFromCategory_scan_last) simp_all
  with True show ?thesis by simp
next
  case False
  then have "GetBinFromCategory_scan vars var 0 None = None"
    by (intro GetBinFromCategory_scan_absent) (auto simp: in_set_conv_nth)
  with False show ?thesis by simp
qed

lemma AddMixingVariable_copy_take:
  "nat nBins \<le> length binLims \<Longrightarrow> i \<le> nat nBins \<Longrightarrow>
   AddMixingVariable_copy binLims nBins i bins = Inr (bins @ take (nat nBins - i) (drop i binLims))"
proof (induction binLims nBins i bins rule: AddMixingVariable_copy.induct)
  case (1 binLims nBins i bins)
  show ?case
  proof (cases "int i < nBins")
    case True
    then have lt: "i < length binLims" "Suc i \<le> nat nBins" using "1.prems" by linarith+
    have "take (nat nBins - i) (drop i binLims) = binLims ! i # take (nat nBins - Suc i) (drop (Suc i) binLims)"
      using lt by (metis Cons_nth_drop_Suc Suc_diff_Suc Suc_le_lessD take_Suc_Cons)
    then show ?thesis
      using "1.IH" [OF True lt(1) "1.prems"(1) lt(2)] True lt
      by (subst AddMixingVariable_copy.simps) simp
  next
    case False
    then have "nat nBins - i = 0" using "1.prems" by linarith
    then show ?thesis using False by (subst AddMixingVariable_copy.simps) simp
  qed
qed

lemma FindEventCategory_bins_closed:
  "length bin = i \<Longrightarrow> i \<le> length vars \<Longrightarrow>
   FindEventCategory_bins vars limits vals i bin =
     (if \<forall>k. i \<le> k \<and> k < length vars \<longrightarrow>
           binValue vars limits vals k \<noteq> - 1 \<and> binValue vars limits vals k \<noteq> binCount limits k
      then Some (bin @ map (binValue vars limits vals) [i..<length vars]) else None)"
proof (induction vars limits vals i bin rule: FindEventCategory_bins.induct)
  case (1 vars limits vals i bin)
  show ?case
  proof (cases "i < length vars")
    case False
    then show ?thesis using "1.prems" by (subst FindEventCategory_bins.simps) simp
  next
    case True
    let ?b = "binValue vars limits vals i"
    have nth: "(bin @ [?b]) ! i = ?b" using "1.prems" by (simp add: nth_append)
    show ?thesis
    proof (cases "?b = - 1 \<or> ?b = binCount limits i")
      case bad: True
      then have "FindEventCategory_bins vars limits vals i bin = None"
        using True nth by (subst FindEventCategory_bins.simps) (simp add: binValue_def binCount_def Let_def)
      moreover have "\<not> (\<forall>k. i \<le> k \<and> k < length vars \<longrightarrow>
           binValue vars limits vals k \<noteq> - 1 \<and> binValue vars limits vals k \<noteq> binCount limits k)"
        using bad True by blast
      ultimately show ?thesis by simp
    next
      case good: False
      have step: "FindEventCategory_bins vars limits vals i bin =
                  FindEventCategory_bins vars limits vals (Suc i) (bin @ [?b])"
        using True nth good
        by (subst FindEventCategory_bins.simps) (simp add: binValue_def binCount_def Let_def)
      have IH: "FindEventCategory_bins vars limits vals (Suc i) (bin @ [?b]) =
        (if \<forall>k. Suc i \<le> k \<and> k < length vars \<longrightarrow>
           binValue vars limits vals k \<noteq> - 1 \<and> binValue vars limits vals k \<noteq> binCount limits k
         then Some ((bin @ [?b]) @ map (binValue vars limits vals) [Suc i..<length vars]) else None)"
      proof (rule "1.IH" [OF True])
        show "?b = BinarySearch (GetSize (limits ! i)) (limits ! i) (vals (vars ! i))"
          by (simp add: binValue_def)
        show "bin @ [?b] = bin @ [?b]" ..
        show "\<not> ((bin @ [?b]) ! i = - 1 \<or> (bin @ [?b]) ! i = GetSize (limits ! i) - 1)"
          using good nth by (simp add: binCount_def)
        show "length (bin @ [?b]) = Suc i" using "1.prems" by simp
        show "Suc i \<le> length vars" using True by simp
      qed
      have all: "(\<forall>k. i \<le> k \<and> k < length vars \<longrightarrow>
           binValue vars limits vals k \<noteq> - 1 \<and> binValue vars limits vals k \<noteq> binCount limits k)
        \<longleftrightarrow> (\<forall>k. Suc i \<le> k \<and> k < length vars \<longrightarrow>
           binValue vars limits vals k \<noteq> - 1 \<and> binValue vars limits vals k \<noteq> binCount limits k)"
        using good by (metis Suc_leI le_neq_implies_less Suc_leD)
      have upt: "[i..<length vars] = i # [Suc i..<length vars]"
        using True by (simp add: upt_conv_Cons)
      show ?thesis unfolding step IH all upt by simp
    qed
  qed
qed

text \<open>
  The arithmetic loops compute the products and sums of the integers as long as every
  intermediate value fits 32 bits.
\<close>

lemma FindEventCategory_temp_prod:
  "iVar2 \<le> length vars \<Longrightarrow>
   \<forall>j. iVar2 < j \<and> j < length vars \<longrightarrow> (if j = iVar then bin ! j else binCount limits j) \<noteq> 0 \<Longrightarrow>
   \<bar>t * (\<Prod>j = iVar2..<length vars. if j = iVar then bin ! j else binCount limits j)\<bar> \<le> INT_MAX \<Longrightarrow>
   FindEventCategory_temp vars limits bin iVar iVar2 t =
     t * (\<Prod>j = iVar2..<length vars. if j = iVar then bin ! j else binCount limits j)"
proof (induction vars limits bin iVar iVar2 t rule: FindEventCategory_temp.induct)
  case (1 vars limits bin iVar iVar2 t)
  let ?g = "\<lambda>j. if j = iVar then bin ! j else binCount limits j"
  show ?case
  proof (cases "iVar2 < length vars")
    case False
    then show ?thesis using "1.prems"(1) by (subst FindEventCategory_temp.simps) simp
  next
    case True
    define P where "P = (\<Prod>j = Suc iVar2..<length vars. ?g j)"
    have split: "(\<Prod>j = iVar2..<length vars. ?g j) = ?g iVar2 * P"
      using True by (simp add: prod.atLeast_Suc_lessThan P_def)
    have Pnz: "P \<noteq> 0"
      unfolding P_def using "1.prems"(2) by (intro prod_nonzero) (simp add: Suc_le_eq)
    have bound: "\<bar>t * ?g iVar2 * P\<bar> \<le> INT_MAX"
      using "1.prems"(3) unfolding split by (simp add: mult.assoc)
    have "\<bar>t * ?g iVar2\<bar> \<le> \<bar>t * ?g iVar2 * P\<bar>"
      using Pnz by (rule abs_le_abs_mult)
    then have nowrap: "int32 (t * ?g iVar2) = t * ?g iVar2"
      using bound by (intro int32_abs) simp
    define t' where "t' = (if iVar2 = iVar then int32 (t * bin ! iVar2)
                           else int32 (t * (GetSize (limits ! iVar2) - 1)))"
    have t': "t' = t * ?g iVar2"
      using nowrap by (auto simp: t'_def binCount_def)
    have step: "FindEventCategory_temp vars limits bin iVar iVar2 t =
                FindEventCategory_temp vars limits bin iVar (Suc iVar2) t'"
      using True by (subst FindEventCategory_temp.simps) (simp add: t'_def)
    have IH: "FindEventCategory_temp vars limits bin iVar (Suc iVar2) t' = t' * P"
      unfolding P_def
    proof (rule "1.IH" [OF True, folded t'_def])
      show "Suc iVar2 \<le> length vars" using True by simp
      show "\<forall>j. Suc iVar2 < j \<and> j < length vars \<longrightarrow> ?g j \<noteq> 0"
        using "1.prems"(2) by simp
      show "\<bar>t' * (\<Prod>j = Suc iVar2..<length vars. ?g j)\<bar> \<le> INT_MAX"
        using bound by (simp add: P_def t')
    qed
    have "t' * P = t * (\<Prod>j = iVar2..<length vars. ?g j)"
      unfolding split t' by (simp add: mult.assoc)
    with step IH show ?thesis by simp
  qed
qed

lemma FindEventCategory_temp_weight:
  assumes "iVar < length vars"
    and "\<forall>j. iVar < j \<and> j < length vars \<longrightarrow> binCount limits j \<noteq> 0"
    and "\<bar>bin ! iVar * (\<Prod>j = Suc iVar..<length vars. binCount limits j)\<bar> \<le> INT_MAX"
  shows "FindEventCategory_temp vars limits bin iVar iVar 1 =
     bin ! iVar * (\<Prod>j = Suc iVar..<length vars. binCount limits j)"
proof -
  let ?g = "\<lambda>j. if j = iVar then bin ! j else binCount limits j"
  have tail: "(\<Prod>j = Suc iVar..<length vars. ?g j) = (\<Prod>j = Suc iVar..<length vars. binCount limits j)"
    by (rule prod.cong) auto
  have whole: "(\<Prod>j = iVar..<length vars. ?g j) =
               bin ! iVar * (\<Prod>j = Suc iVar..<length vars. binCount limits j)"
    using assms(1) by (simp add: prod.atLeast_Suc_lessThan tail)
  have "FindEventCategory_temp vars limits bin iVar iVar 1 = 1 * (\<Prod>j = iVar..<length vars. ?g j)"
  proof (rule FindEventCategory_temp_prod)
    show "iVar \<le> length vars" using assms(1) by simp
    show "\<forall>j. iVar < j \<and> j < length vars \<longrightarrow> ?g j \<noteq> 0" using assms(2) by simp
    show "\<bar>1 * (\<Prod>j = iVar..<length vars. ?g j)\<bar> \<le> INT_MAX"
      using assms(3) unfolding whole by simp
  qed
  then show ?thesis unfolding whole by simp
qed

lemma FindEventCategory_sum_eq:
  "iVar \<le> length vars \<Longrightarrow>
   \<forall>i. iVar \<le> i \<and> i < length vars \<longrightarrow> FindEventCategory_temp vars limits bin i i 1 = w i \<Longrightarrow>
   \<forall>k. iVar < k \<and> k \<le> length vars \<longrightarrow> \<bar>category + (\<Sum>i = iVar..<k. w i)\<bar> \<le> INT_MAX \<Longrightarrow>
   FindEventCategory_sum vars limits bin iVar category = category + (\<Sum>i = iVar..<length vars. w i)"
proof (induction vars limits bin iVar category rule: FindEventCategory_sum.induct)
  case (1 vars limits bin iVar category)
  show ?case
  proof (cases "iVar < length vars")
    case False
    then show ?thesis using "1.prems"(1) by (subst FindEventCategory_sum.simps) simp
  next
    case True
    define c' where "c' = int32 (category + FindEventCategory_temp vars limits bin iVar iVar 1)"
    have tw: "FindEventCategory_temp vars limits bin iVar iVar 1 = w iVar"
      using "1.prems"(2) True by simp
    have "\<bar>category + (\<Sum>i = iVar..<Suc iVar. w i)\<bar> \<le> INT_MAX"
      using "1.prems"(3) [rule_format, of "Suc iVar"] True by (simp only: lessI Suc_le_eq simp_thms)
    then have c': "c' = category + w iVar"
      unfolding c'_def tw by (intro int32_abs) simp
    have step: "FindEventCategory_sum vars limits bin iVar category =
                FindEventCategory_sum vars limits bin (Suc iVar) c'"
      using True by (subst FindEventCategory_sum.simps) (simp add: c'_def)
    have IH: "FindEventCategory_sum vars limits bin (Suc iVar) c' =
              c' + (\<Sum>i = Suc iVar..<length vars. w i)"
    proof (rule "1.IH" [OF True, folded c'_def])
      show "Suc iVar \<le> length vars" using True by simp
      show "\<forall>i. Suc iVar \<le> i \<and> i < length vars \<longrightarrow>
              FindEventCategory_temp vars limits bin i i 1 = w i"
        using "1.prems"(2) by simp
      show "\<forall>k. Suc iVar < k \<and> k \<le> length vars \<longrightarrow>
              \<bar>c' + (\<Sum>i = Suc iVar..<k. w i)\<bar> \<le> INT_MAX"
      proof (intro allI impI)
        fix k assume k: "Suc iVar < k \<and> k \<le> length vars"
        then have "(\<Sum>i = iVar..<k. w i) = w iVar + (\<Sum>i = Suc iVar..<k. w i)"
          by (simp add: sum.atLeast_Suc_lessThan)
        moreover have "\<bar>category + (\<Sum>i = iVar..<k. w i)\<bar> \<le> INT_MAX"
          using "1.prems"(3) k by simp
        ultimately show "\<bar>c' + (\<Sum>i = Suc iVar..<k. w i)\<bar> \<le> INT_MAX"
          by (simp add: c' add.assoc)
      qed
    qed
    have "c' + (\<Sum>i = Suc iVar..<length vars. w i) = category + (\<Sum>i = iVar..<length vars. w i)"
      using True by (simp add: c' sum.atLeast_Suc_lessThan)
    with step IH show ?thesis by simp
  qed
qed

lemma GetBinFromCategory_norm_prod:
  "\<forall>j. tempVar < j \<and> j \<le> i \<longrightarrow> binCount limits j \<noteq> 0 \<Longrightarrow>
   \<bar>n * (\<Prod>j = Suc tempVar..<Suc i. binCount limits j)\<bar> \<le> INT_MAX \<Longrightarrow>
   GetBinFromCategory_norm limits tempVar i n = n * (\<Prod>j = Suc tempVar..<Suc i. binCount limits j)"
proof (induction limits tempVar i n rule: GetBinFromCategory_norm.induct)
  case (1 limits tempVar i n)
  show ?case
  proof (cases "tempVar < i")
    case False
    then show ?thesis by (subst GetBinFromCategory_norm.simps) simp
  next
    case True
    then obtain i' where i': "i = Suc i'" by (cases i) auto
    define P where "P = (\<Prod>j = Suc tempVar..<Suc i'. binCount limits j)"
    define n' where "n' = int32 (n * (GetSize (limits ! i) - 1))"
    have split: "(\<Prod>j = Suc tempVar..<Suc i. binCount limits j) = binCount limits i * P"
      using True i' by (simp add: P_def mult.commute)
    have Pnz: "P \<noteq> 0"
      unfolding P_def using "1.prems"(1) i' by (intro prod_nonzero) (simp add: Suc_le_eq)
    have bound: "\<bar>n * binCount limits i * P\<bar> \<le> INT_MAX"
      using "1.prems"(2) unfolding split by (simp add: mult.assoc)
    have "\<bar>n * binCount limits i\<bar> \<le> \<bar>n * binCount limits i * P\<bar>"
      using Pnz by (rule abs_le_abs_mult)
    then have n': "n' = n * binCount limits i"
      unfolding n'_def binCount_def [symmetric] using bound by (intro int32_abs) simp
    have step: "GetBinFromCategory_norm limits tempVar i n =
                GetBinFromCategory_norm limits tempVar i' n'"
      using True i' by (subst GetBinFromCategory_norm.simps) (simp add: n'_def)
    have IH: "GetBinFromCategory_norm limits tempVar i' n' = n' * P"
      unfolding P_def
    proof (rule "1.IH" [OF True, folded n'_def, unfolded i' diff_Suc_1])
      show "\<forall>j. tempVar < j \<and> j \<le> i' \<longrightarrow> binCount limits j \<noteq> 0"
        using "1.prems"(1) i' by simp
      show "\<bar>n' * (\<Prod>j = Suc tempVar..<Suc i'. binCount limits j)\<bar> \<le> INT_MAX"
        using bound by (simp add: n' P_def)
    qed
    have "n' * P = n * (\<Prod>j = Suc tempVar..<Suc i. binCount limits j)"
      unfolding split n' by (simp add: mult.assoc)
    with step IH show ?thesis by simp
  qed
qed

subsection \<open>Mixed-radix arithmetic\<close>

lemma sdiv_sdiv_eq:
  fixes a b c :: int
  shows "(a sdiv b) sdiv c = a sdiv (b * c)"
proof (cases "\<bar>a\<bar> div \<bar>b\<bar> = 0")
  case True
  then have "\<bar>a\<bar> div (\<bar>b\<bar> * \<bar>c\<bar>) = 0"
    by (simp add: zdiv_zmult2_eq)
  with True show ?thesis
    by (simp add: signed_divide_int_def abs_mult)
next
  case False
  define q where "q = \<bar>a\<bar> div \<bar>b\<bar>"
  have nz: "a \<noteq> 0" "b \<noteq> 0" using False by auto
  have "0 \<le> q" by (simp add: q_def div_int_pos_iff)
  then have pos: "0 < q" using False by (simp add: q_def)
  have ab: "a sdiv b = sgn a * sgn b * q"
    by (simp add: signed_divide_int_def q_def)
  have s: "sgn (a sdiv b) = sgn a * sgn b"
    using pos by (simp add: ab sgn_mult)
  have m: "\<bar>a sdiv b\<bar> = q"
    using pos nz by (simp add: ab abs_mult abs_sgn_eq)
  have "(a sdiv b) sdiv c = sgn a * sgn b * sgn c * (q div \<bar>c\<bar>)"
    unfolding signed_divide_int_def [of "a sdiv b" c] s m ..
  also have "q div \<bar>c\<bar> = \<bar>a\<bar> div (\<bar>b\<bar> * \<bar>c\<bar>)"
    unfolding q_def by (simp add: zdiv_zmult2_eq)
  also have "sgn a * sgn b * sgn c * (\<bar>a\<bar> div (\<bar>b\<bar> * \<bar>c\<bar>)) = a sdiv (b * c)"
    unfolding signed_divide_int_def [of a "b * c"] by (simp only: abs_mult sgn_mult mult.assoc)
  finally show ?thesis .
qed

lemma smod_eq_minus: "(a::int) smod b = a - (a sdiv b) * b"
  by (simp add: minus_sdiv_mult_eq_smod)

lemma sdiv_small: "0 \<le> c \<Longrightarrow> c < t \<Longrightarrow> (c::int) sdiv t = 0"
  by (simp add: signed_divide_int_def)

text \<open>Decoding every digit and encoding again telescopes.\<close>

lemma decode_encode_sum:
  fixes b :: "nat \<Rightarrow> int"
  assumes "k \<le> n"
  shows "(\<Sum>i = k..<n. ((c sdiv (\<Prod>j = Suc i..<n. b j)) smod b i) * (\<Prod>j = Suc i..<n. b j))
         = c - (c sdiv (\<Prod>j = k..<n. b j)) * (\<Prod>j = k..<n. b j)"
  using assms
proof (induction k rule: inc_induct)
  case base
  show ?case by simp
next
  case (step m)
  let ?N = "\<Prod>j = Suc m..<n. b j"
  have N: "(\<Prod>j = m..<n. b j) = b m * ?N"
    using step.hyps by (simp add: prod.atLeast_Suc_lessThan)
  have "((c sdiv ?N) smod b m) * ?N = (c sdiv ?N) * ?N - (c sdiv (?N * b m)) * (b m * ?N)"
    by (simp add: smod_eq_minus sdiv_sdiv_eq algebra_simps)
  then show ?case
    using step.hyps step.IH by (simp add: sum.atLeast_Suc_lessThan N mult.commute)
qed

lemma radix_step_bound:
  fixes d b N S :: int
  assumes "0 \<le> d" "d < b" "0 \<le> S" "S < N"
  shows "0 \<le> d * N + S \<and> d * N + S < b * N"
proof -
  have Npos: "0 < N" using assms by linarith
  have "d * N + S < d * N + N" using assms by simp
  also have "\<dots> = (d + 1) * N" by (simp add: distrib_right)
  also have "\<dots> \<le> b * N"
    by (rule mult_right_mono) (use assms Npos in simp_all)
  finally have "d * N + S < b * N" .
  moreover have "0 \<le> d * N" using assms Npos by simp
  ultimately show ?thesis using assms by linarith
qed

lemma radix_step_inj:
  fixes d d' N S S' :: int
  assumes "0 \<le> S" "S < N" "0 \<le> S'" "S' < N" "d * N + S = d' * N + S'"
  shows "d = d' \<and> S = S'"
proof -
  have Nz: "N \<noteq> 0" using assms by linarith
  have "(S + d * N) div N = d + S div N" "(S' + d' * N) div N = d' + S' div N"
    using Nz by (rule div_mult_self1)+
  moreover have "S div N = 0" "S' div N = 0"
    using assms by (simp_all only: div_pos_pos_trivial)
  ultimately have "(d * N + S) div N = d" "(d' * N + S') div N = d'"
    by (simp_all only: add.commute [of S] add.commute [of S'] add_0_right)
  then have "d = d'" using assms(5) by simp
  then show ?thesis using assms(5) by simp
qed

text \<open>The range of the encoding.\<close>

lemma encode_range:
  fixes b d :: "nat \<Rightarrow> int"
  assumes "k \<le> n" "\<forall>i. k \<le> i \<and> i < n \<longrightarrow> 0 \<le> d i \<and> d i < b i"
  shows "0 \<le> (\<Sum>i = k..<n. d i * (\<Prod>j = Suc i..<n. b j)) \<and>
         (\<Sum>i = k..<n. d i * (\<Prod>j = Suc i..<n. b j)) < (\<Prod>j = k..<n. b j)"
  using assms
proof (induction k rule: inc_induct)
  case base
  show ?case by simp
next
  case (step m)
  define N where "N = (\<Prod>j = Suc m..<n. b j)"
  define S where "S = (\<Sum>i = Suc m..<n. d i * (\<Prod>j = Suc i..<n. b j))"
  have IH: "0 \<le> S" "S < N" using step.IH step.prems unfolding N_def S_def by auto
  have dm: "0 \<le> d m" "d m < b m" using step.prems step.hyps by auto
  have eqs: "(\<Sum>i = m..<n. d i * (\<Prod>j = Suc i..<n. b j)) = d m * N + S"
    "(\<Prod>j = m..<n. b j) = b m * N"
    using step.hyps by (simp_all add: sum.atLeast_Suc_lessThan prod.atLeast_Suc_lessThan N_def S_def)
  show ?case unfolding eqs using radix_step_bound [OF dm IH] .
qed

text \<open>The encoding is injective on valid digits.\<close>

lemma encode_inj:
  fixes b d d' :: "nat \<Rightarrow> int"
  assumes "k \<le> n"
    "\<forall>i. k \<le> i \<and> i < n \<longrightarrow> 0 \<le> d i \<and> d i < b i"
    "\<forall>i. k \<le> i \<and> i < n \<longrightarrow> 0 \<le> d' i \<and> d' i < b i"
    "(\<Sum>i = k..<n. d i * (\<Prod>j = Suc i..<n. b j)) = (\<Sum>i = k..<n. d' i * (\<Prod>j = Suc i..<n. b j))"
  shows "\<forall>i. k \<le> i \<and> i < n \<longrightarrow> d i = d' i"
  using assms
proof (induction k rule: inc_induct)
  case base
  show ?case by simp
next
  case (step m)
  define N where "N = (\<Prod>j = Suc m..<n. b j)"
  define S where "S = (\<Sum>i = Suc m..<n. d i * (\<Prod>j = Suc i..<n. b j))"
  define S' where "S' = (\<Sum>i = Suc m..<n. d' i * (\<Prod>j = Suc i..<n. b j))"
  have hyp: "\<forall>i. Suc m \<le> i \<and> i < n \<longrightarrow> 0 \<le> d i \<and> d i < b i"
    "\<forall>i. Suc m \<le> i \<and> i < n \<longrightarrow> 0 \<le> d' i \<and> d' i < b i"
    using step.prems(1,2) by auto
  have r: "0 \<le> S" "S < N"
    using encode_range [of "Suc m" n d b] step.hyps hyp(1) unfolding N_def S_def by auto
  have r': "0 \<le> S'" "S' < N"
    using encode_range [of "Suc m" n d' b] step.hyps hyp(2) unfolding N_def S'_def by auto
  have eq: "d m * N + S = d' m * N + S'"
    using step.prems(3) step.hyps by (simp add: sum.atLeast_Suc_lessThan N_def S_def S'_def)
  from radix_step_inj [OF r r' eq] have dm: "d m = d' m" and "S = S'" by simp_all
  then have rest: "\<forall>i. Suc m \<le> i \<and> i < n \<longrightarrow> d i = d' i"
    using step.IH [OF hyp] unfolding S_def S'_def by simp
  show ?case
  proof (intro allI impI)
    fix i assume "m \<le> i \<and> i < n"
    then show "d i = d' i" using dm rest by (cases "i = m") auto
  qed
qed

lemma mult_sdiv_cancel: "b \<noteq> 0 \<Longrightarrow> (a * b) sdiv b = (a::int)"
proof -
  assume b: "b \<noteq> 0"
  have "(a * b) sdiv b = sgn a * (sgn b * sgn b) * \<bar>a\<bar>"
    using b by (simp add: signed_divide_int_def sgn_mult abs_mult)
  also have "sgn b * sgn b = 1" using b by (simp add: sgn_mult_self_eq)
  finally show ?thesis by (simp add: sgn_mult_abs)
qed

lemma truncated_sdiv: "n \<noteq> 0 \<Longrightarrow> (c - c smod n) sdiv n = (c::int) sdiv n"
  by (simp add: minus_smod_eq_sdiv_mult mult_sdiv_cancel)

lemma smod_nonneg_range:
  fixes c n :: int
  assumes "0 \<le> c"
  shows "0 \<le> c smod n \<and> c smod n \<le> c"
proof (cases "c = 0")
  case True
  then show ?thesis by simp
next
  case False
  then have "c smod n = c mod \<bar>n\<bar>"
    using assms by (simp add: signed_modulo_int_def)
  moreover have "0 \<le> c mod \<bar>n\<bar>"
    by (cases "n = 0") (use assms in simp_all)
  moreover have "c mod \<bar>n\<bar> \<le> c"
    using assms by (rule zmod_le_nonneg_dividend)
  ultimately show ?thesis by simp
qed

lemma sdiv_abs_le: "\<bar>(a::int) sdiv b\<bar> \<le> \<bar>a\<bar>"
  using sdiv_int_range [of a b] by auto

subsection \<open>The operations in closed form\<close>

lemma Init_fields [simp]:
  "fVariables (Init h) = fVariables h" "fVariableLimits (Init h) = fVariableLimits h"
  "fIsInitialized (Init h) = True"
  by (simp_all add: Init_def)

lemma Init_eq: "Init h = h\<lparr>fIsInitialized := True\<rparr>"
  by (simp add: Init_def)

lemma FindEventCategory_state:
  "snd (FindEventCategory h vals) =
     (if fVariables h = [] \<or> fIsInitialized h then h else Init h)"
  by (simp add: FindEventCategory_def Let_def split: option.split)

lemma query_state_cases:
  "query_state q h = h \<or> (query_state q h = h\<lparr>fIsInitialized := True\<rparr> \<and> \<not> fIsInitialized h)"
  by (cases q) (auto simp: FindEventCategory_state Init_eq GetMixingVariable_def GetMixingVariableLimits_def)

text \<open>Every operation keeps the two vectors at the same length.\<close>

lemma consistent_new: "consistent MixingHandler_new"
  by (simp add: consistent_def MixingHandler_new_def)

lemma consistent_AddMixingVariable:
  "consistent h \<Longrightarrow> AddMixingVariable SetUseVariable var nBins binLims (h, reg) = Inr (h', reg')
   \<Longrightarrow> consistent h'"
  by (auto simp: AddMixingVariable_def consistent_def Let_def split: sum.splits)

lemma consistent_AddMixingVariable_vector:
  "consistent h \<Longrightarrow> AddMixingVariable_vector SetUseVariable var nBins binLims (h, reg) = Inr (h', reg')
   \<Longrightarrow> consistent h'"
  by (auto simp: AddMixingVariable_vector_def split: if_splits sum.splits
      dest: consistent_AddMixingVariable)

lemma consistent_Init: "consistent (Init h) = consistent h"
  by (simp add: consistent_def)

lemma consistent_FindEventCategory: "consistent (snd (FindEventCategory h vals)) = consistent h"
  by (simp add: FindEventCategory_state consistent_Init)

lemma FindEventCategory_fst:
  "fst (FindEventCategory h vals) =
     (if fVariables h = [] then - 1
      else case FindEventCategory_bins (fVariables h) (fVariableLimits h) vals 0 [] of
        None \<Rightarrow> - 1
      | Some bin \<Rightarrow> FindEventCategory_sum (fVariables h) (fVariableLimits h) bin 0 0)"
  by (simp add: FindEventCategory_def Let_def split: option.split)

lemma FindEventCategory_fst_fields:
  assumes "fVariables h' = fVariables h" "fVariableLimits h' = fVariableLimits h"
  shows "fst (FindEventCategory h' vals) = fst (FindEventCategory h vals)"
  unfolding FindEventCategory_fst assms ..

lemma FindEventCategory_invalid:
  assumes "fVariables h \<noteq> []"
    and "\<not> (\<forall>k<length (fVariables h).
           binValue (fVariables h) (fVariableLimits h) vals k \<noteq> - 1 \<and>
           binValue (fVariables h) (fVariableLimits h) vals k \<noteq> binCount (fVariableLimits h) k)"
  shows "fst (FindEventCategory h vals) = - 1"
proof -
  have "FindEventCategory_bins (fVariables h) (fVariableLimits h) vals 0 [] = None"
    using assms(2) by (simp add: FindEventCategory_bins_closed)
  then show ?thesis using assms(1) by (simp add: FindEventCategory_fst)
qed

lemma FindEventCategory_bins_valid:
  assumes "\<forall>k<length (fVariables h).
           binValue (fVariables h) (fVariableLimits h) vals k \<noteq> - 1 \<and>
           binValue (fVariables h) (fVariableLimits h) vals k \<noteq> binCount (fVariableLimits h) k"
  shows "FindEventCategory_bins (fVariables h) (fVariableLimits h) vals 0 [] =
     Some (map (binValue (fVariables h) (fVariableLimits h) vals) [0..<length (fVariables h)])"
  using assms by (simp add: FindEventCategory_bins_closed)

lemma values_in_range_iff:
  "values_in_range h vals \<longleftrightarrow>
     (\<forall>i<length (fVariables h). in_range (fVariableLimits h ! i) (vals (fVariables h ! i)))"
  by (auto simp: values_in_range_def list_all_iff)

lemma binValue_valid_iff:
  assumes "consistent h" "ascending_axes h" "i < length (fVariables h)"
  shows "(binValue (fVariables h) (fVariableLimits h) vals i \<noteq> - 1 \<and>
          binValue (fVariables h) (fVariableLimits h) vals i \<noteq> binCount (fVariableLimits h) i)
         \<longleftrightarrow> in_range (fVariableLimits h ! i) (vals (fVariables h ! i))"
proof -
  have "ascending (fVariableLimits h ! i)"
    using assms by (simp add: consistent_def ascending_axes_def list_all_length)
  from BinarySearch_in_range [OF this, of "vals (fVariables h ! i)"]
  show ?thesis by (auto simp: binValue_def binCount_def)
qed

lemma binValue_bounds:
  assumes "binValue vars limits vals i \<noteq> - 1" "binValue vars limits vals i \<noteq> binCount limits i"
  shows "0 \<le> binValue vars limits vals i \<and> binValue vars limits vals i < binCount limits i"
  using assms BinarySearch_range [of "length (limits ! i)" "limits ! i" "vals (vars ! i)"]
  by (simp add: binValue_def binCount_def GetSize_def)

text \<open>Encoding valid digits never leaves the 32-bit range when the grid fits it.\<close>

lemma FindEventCategory_sum_digits:
  fixes d :: "nat \<Rightarrow> int"
  assumes len: "length bin = length vars"
    and dig: "\<forall>i<length vars. bin ! i = d i"
    and rng: "\<forall>i<length vars. 0 \<le> d i \<and> d i < binCount limits i"
    and fit: "(\<Prod>j = 0..<length vars. binCount limits j) \<le> INT_MAX"
  shows "FindEventCategory_sum vars limits bin 0 0 =
     (\<Sum>i = 0..<length vars. d i * (\<Prod>j = Suc i..<length vars. binCount limits j))"
proof -
  let ?n = "length vars"
  let ?b = "binCount limits"
  let ?w = "\<lambda>i. d i * (\<Prod>j = Suc i..<?n. ?b j)"
  have bpos: "0 < ?b j" if "j < ?n" for j
    using rng that by (meson le_less_trans)
  have wpos: "0 \<le> ?w i" if "i < ?n" for i
  proof -
    have "0 \<le> (\<Prod>j = Suc i..<?n. ?b j)"
      by (rule prod_nonneg) (simp add: bpos less_imp_le)
    then show ?thesis using rng that by simp
  qed
  have total: "(\<Sum>i = 0..<?n. ?w i) < (\<Prod>j = 0..<?n. ?b j)"
    using encode_range [of 0 ?n d ?b] rng by simp
  have prefix: "0 \<le> (\<Sum>i = 0..<k. ?w i) \<and> (\<Sum>i = 0..<k. ?w i) \<le> (\<Sum>i = 0..<?n. ?w i)"
    if "k \<le> ?n" for k
  proof
    show "0 \<le> (\<Sum>i = 0..<k. ?w i)"
      by (rule sum_nonneg) (use that wpos in simp)
    show "(\<Sum>i = 0..<k. ?w i) \<le> (\<Sum>i = 0..<?n. ?w i)"
      by (rule sum_mono2) (use that wpos in auto)
  qed
  have single: "?w i \<le> (\<Sum>i = 0..<?n. ?w i)" if "i < ?n" for i
    by (rule member_le_sum) (use that wpos in auto)
  have temp: "FindEventCategory_temp vars limits bin i i 1 = ?w i" if "i < ?n" for i
  proof -
    have "FindEventCategory_temp vars limits bin i i 1 =
          bin ! i * (\<Prod>j = Suc i..<?n. ?b j)"
    proof (rule FindEventCategory_temp_weight [OF that])
      show "\<forall>j. i < j \<and> j < ?n \<longrightarrow> ?b j \<noteq> 0"
        using bpos by (simp add: less_imp_neq [THEN not_sym])
      have "\<bar>?w i\<bar> \<le> INT_MAX"
        using wpos [OF that] single [OF that] total fit by simp
      then show "\<bar>bin ! i * (\<Prod>j = Suc i..<?n. ?b j)\<bar> \<le> INT_MAX"
        using dig that by simp
    qed
    then show ?thesis using dig that by simp
  qed
  have "FindEventCategory_sum vars limits bin 0 0 = 0 + (\<Sum>i = 0..<?n. ?w i)"
  proof (rule FindEventCategory_sum_eq)
    show "0 \<le> ?n" by simp
    show "\<forall>i. 0 \<le> i \<and> i < ?n \<longrightarrow> FindEventCategory_temp vars limits bin i i 1 = ?w i"
      using temp by simp
    show "\<forall>k. 0 < k \<and> k \<le> ?n \<longrightarrow> \<bar>0 + (\<Sum>i = 0..<k. ?w i)\<bar> \<le> INT_MAX"
    proof (intro allI impI)
      fix k assume "0 < k \<and> k \<le> ?n"
      then have "0 \<le> (\<Sum>i = 0..<k. ?w i)" "(\<Sum>i = 0..<k. ?w i) \<le> (\<Sum>i = 0..<?n. ?w i)"
        using prefix [of k] by simp_all
      then show "\<bar>0 + (\<Sum>i = 0..<k. ?w i)\<bar> \<le> INT_MAX"
        using total fit by simp
    qed
  qed
  then show ?thesis by simp
qed

lemma FindEventCategory_valid:
  assumes ne: "fVariables h \<noteq> []"
    and ok: "\<forall>k<length (fVariables h).
           binValue (fVariables h) (fVariableLimits h) vals k \<noteq> - 1 \<and>
           binValue (fVariables h) (fVariableLimits h) vals k \<noteq> binCount (fVariableLimits h) k"
    and fit: "(\<Prod>j = 0..<length (fVariables h). binCount (fVariableLimits h) j) \<le> INT_MAX"
  shows "fst (FindEventCategory h vals) =
           (\<Sum>i = 0..<length (fVariables h).
              binValue (fVariables h) (fVariableLimits h) vals i *
              (\<Prod>j = Suc i..<length (fVariables h). binCount (fVariableLimits h) j))"
proof -
  let ?B = "binValue (fVariables h) (fVariableLimits h) vals"
  let ?bin = "map ?B [0..<length (fVariables h)]"
  have "fst (FindEventCategory h vals) =
        FindEventCategory_sum (fVariables h) (fVariableLimits h) ?bin 0 0"
    using ne by (simp add: FindEventCategory_fst FindEventCategory_bins_valid [OF ok])
  also have "\<dots> = (\<Sum>i = 0..<length (fVariables h). ?B i *
              (\<Prod>j = Suc i..<length (fVariables h). binCount (fVariableLimits h) j))"
  proof (rule FindEventCategory_sum_digits [OF _ _ _ fit])
    show "length ?bin = length (fVariables h)" by simp
    show "\<forall>i<length (fVariables h). ?bin ! i = ?B i" by simp
    show "\<forall>i<length (fVariables h). 0 \<le> ?B i \<and> ?B i < binCount (fVariableLimits h) i"
      using ok binValue_bounds by blast
  qed
  finally show ?thesis .
qed

lemma FindEventCategory_in_range:
  assumes "consistent h" "ascending_axes h" "fVariables h \<noteq> []"
    and "\<forall>i<length (fVariables h). in_range (fVariableLimits h ! i) (vals (fVariables h ! i))"
    and "(\<Prod>j = 0..<length (fVariables h). binCount (fVariableLimits h) j) \<le> INT_MAX"
  shows "fst (FindEventCategory h vals) =
           (\<Sum>i = 0..<length (fVariables h).
              binValue (fVariables h) (fVariableLimits h) vals i *
              (\<Prod>j = Suc i..<length (fVariables h). binCount (fVariableLimits h) j))"
    and "\<forall>i<length (fVariables h).
           0 \<le> binValue (fVariables h) (fVariableLimits h) vals i \<and>
           binValue (fVariables h) (fVariableLimits h) vals i < binCount (fVariableLimits h) i"
proof -
  have ok: "\<forall>k<length (fVariables h).
           binValue (fVariables h) (fVariableLimits h) vals k \<noteq> - 1 \<and>
           binValue (fVariables h) (fVariableLimits h) vals k \<noteq> binCount (fVariableLimits h) k"
    using assms(4) binValue_valid_iff [OF assms(1,2)] by blast
  show "fst (FindEventCategory h vals) =
           (\<Sum>i = 0..<length (fVariables h).
              binValue (fVariables h) (fVariableLimits h) vals i *
              (\<Prod>j = Suc i..<length (fVariables h). binCount (fVariableLimits h) j))"
    using assms(3) ok assms(5) by (rule FindEventCategory_valid)
  show "\<forall>i<length (fVariables h).
           0 \<le> binValue (fVariables h) (fVariableLimits h) vals i \<and>
           binValue (fVariables h) (fVariableLimits h) vals i < binCount (fVariableLimits h) i"
    using ok binValue_bounds by blast
qed

lemma GetBinFromCategory_at_axis:
  assumes k: "k < length (fVariables h)" "fVariables h ! k = var"
    "\<forall>j. k < j \<and> j < length (fVariables h) \<longrightarrow> fVariables h ! j \<noteq> var"
    and nz: "\<forall>j. k < j \<and> j < length (fVariables h) \<longrightarrow> binCount (fVariableLimits h) j \<noteq> 0"
    and fit: "\<bar>\<Prod>j = Suc k..<length (fVariables h). binCount (fVariableLimits h) j\<bar> \<le> INT_MAX"
  shows "GetBinFromCategory h var category =
     (if category = INT_MIN \<and>
         (\<Prod>j = Suc k..<length (fVariables h). binCount (fVariableLimits h) j) = - 1
        then Inl DivisionOverflow
      else if binCount (fVariableLimits h) k = 0 then Inl DivisionByZero
      else if category sdiv (\<Prod>j = Suc k..<length (fVariables h). binCount (fVariableLimits h) j)
                = INT_MIN \<and> binCount (fVariableLimits h) k = - 1
        then Inl DivisionOverflow
      else Inr ((category sdiv (\<Prod>j = Suc k..<length (fVariables h). binCount (fVariableLimits h) j))
                 smod binCount (fVariableLimits h) k))"
proof -
  let ?n = "length (fVariables h)"
  define N where "N = (\<Prod>j = Suc k..<?n. binCount (fVariableLimits h) j)"
  have scan: "GetBinFromCategory_scan (fVariables h) var 0 None = Some k"
    using k by (intro GetBinFromCategory_scan_last) simp_all
  have ne: "?n \<noteq> 0" using k(1) by auto
  then have S: "Suc (?n - 1) = ?n" by simp
  have norm: "GetBinFromCategory_norm (fVariableLimits h) k (?n - 1) 1 = N"
  proof -
    have "GetBinFromCategory_norm (fVariableLimits h) k (?n - 1) 1 =
          1 * (\<Prod>j = Suc k..<Suc (?n - 1). binCount (fVariableLimits h) j)"
    proof (rule GetBinFromCategory_norm_prod)
      show "\<forall>j. k < j \<and> j \<le> ?n - 1 \<longrightarrow> binCount (fVariableLimits h) j \<noteq> 0"
        using nz ne by auto
      show "\<bar>1 * (\<Prod>j = Suc k..<Suc (?n - 1). binCount (fVariableLimits h) j)\<bar> \<le> INT_MAX"
        using fit unfolding S by simp
    qed
    then show ?thesis unfolding S N_def by simp
  qed
  have Nz: "N \<noteq> 0"
    unfolding N_def using nz by (intro prod_nonzero) (simp add: Suc_le_eq)
  have len: "length (fVariables h) = 0 \<longleftrightarrow> False" using ne by simp
  show ?thesis
    unfolding GetBinFromCategory_def N_def [symmetric] scan norm len Let_def option.case if_False
      binCount_def [symmetric] truncated_sdiv [OF Nz]
    using Nz by simp
qed

subsection \<open>Facts about the concrete configurations\<close>

lemma scenario_facts:
  "consistent scenario" "ascending_axes scenario" "fVariables scenario \<noteq> []"
  by (simp_all add: scenario_def consistent_def ascending_axes_def)

lemma scenario_distinct: "distinct (fVariables scenario)"
  by (simp add: scenario_def)

lemma scenario_total:
  "(\<Prod>j = 0..<length (fVariables scenario). binCount (fVariableLimits scenario) j) = 3"
  by (simp add: scenario_def binCount_def GetSize_def numeral_2_eq_2)

lemma scenario_in_range:
  "\<forall>i<length (fVariables scenario).
     in_range (fVariableLimits scenario ! i) (observables 15 0 (fVariables scenario ! i))"
  by (simp add: scenario_def observables_def in_range_def less_Suc_eq numeral_2_eq_2)

lemma scenario_in_range':
  "\<forall>i<length (fVariables scenario).
     in_range (fVariableLimits scenario ! i) (observables 17 0 (fVariables scenario ! i))"
  by (simp add: scenario_def observables_def in_range_def less_Suc_eq numeral_2_eq_2)

lemma scenario_fit:
  "(\<Prod>j = 0..<length (fVariables scenario). binCount (fVariableLimits scenario) j) \<le> INT_MAX"
  by (simp add: scenario_total INT_MAX_def)

section \<open>The claims\<close>

text \<open>
  Claim C1, for grids that fit the 32-bit \<^verbatim>\<open>int\<close>. With at least one registered axis,
  pairwise distinct identifiers and a product of the bin counts \<open>totalCells\<close> of at most
  \<open>INT_MAX\<close>, every category \<open>c\<close> in \<open>[0, totalCells)\<close> is reproduced when every axis
  is decoded from \<open>c\<close> by \<open>GetBinFromCategory\<close> and the bins are encoded again by the
  summation loop of \<open>FindEventCategory\<close>. When the edges are ascending, two in-range
  observable vectors receive the same category exactly when they land in the same bin on
  every axis.
\<close>

theorem decode_encode_roundtrip:
  assumes "consistent h" "fVariables h \<noteq> []" "distinct (fVariables h)"
    and fit: "(\<Prod>j = 0..<length (fVariables h). binCount (fVariableLimits h) j) \<le> INT_MAX"
  shows "(\<forall>c. 0 \<le> c \<and> c < (\<Prod>j = 0..<length (fVariables h). binCount (fVariableLimits h) j) \<longrightarrow>
            (\<exists>bin. map (\<lambda>var. GetBinFromCategory h var c) (fVariables h) = map Inr bin \<and>
                   FindEventCategory_sum (fVariables h) (fVariableLimits h) bin 0 0 = c)) \<and>
         (ascending_axes h \<longrightarrow>
            (\<forall>vals vals'.
               (\<forall>i<length (fVariables h). in_range (fVariableLimits h ! i) (vals (fVariables h ! i))) \<and>
               (\<forall>i<length (fVariables h). in_range (fVariableLimits h ! i) (vals' (fVariables h ! i))) \<longrightarrow>
               (fst (FindEventCategory h vals) = fst (FindEventCategory h vals') \<longleftrightarrow>
                (\<forall>i<length (fVariables h).
                   binValue (fVariables h) (fVariableLimits h) vals i =
                   binValue (fVariables h) (fVariableLimits h) vals' i))))"
proof (intro conjI allI impI)
  let ?n = "length (fVariables h)"
  let ?b = "binCount (fVariableLimits h)"
  fix c :: int
  assume c: "0 \<le> c \<and> c < (\<Prod>j = 0..<?n. ?b j)"
  define N where "N i = (\<Prod>j = i..<?n. ?b j)" for i
  define d where "d i = (c sdiv N (Suc i)) smod ?b i" for i
  define w where "w i = d i * N (Suc i)" for i
  define S where "S k = (\<Sum>i = k..<?n. w i)" for k
  define bin where "bin = map d [0..<?n]"
  have cM: "c < INT_MAX" using c fit by simp
  have nz: "?b j \<noteq> 0" if "j < ?n" for j
  proof
    assume "?b j = 0"
    then have "(\<Prod>j = 0..<?n. ?b j) = 0" using that by (auto simp: prod_zero_iff)
    with c show False by auto
  qed
  have Nz: "N i \<noteq> 0" for i
    unfolding N_def using nz by (simp add: prod_zero_iff)
  have Nfit: "\<bar>N i\<bar> \<le> INT_MAX" if "i \<le> ?n" for i
  proof -
    have "\<bar>N i\<bar> \<le> \<bar>\<Prod>j = 0..<?n. ?b j\<bar>"
      unfolding N_def using that nz by (intro abs_prod_suffix_le) simp_all
    then show ?thesis using c fit by simp
  qed
  have dec: "GetBinFromCategory h (fVariables h ! i) c = Inr (d i)" if "i < ?n" for i
  proof -
    have last: "\<forall>j. i < j \<and> j < ?n \<longrightarrow> fVariables h ! j \<noteq> fVariables h ! i"
      using assms(3) that by (auto simp: nth_eq_iff_index_eq)
    have after: "\<forall>j. i < j \<and> j < ?n \<longrightarrow> ?b j \<noteq> 0" using nz by simp
    have f: "\<bar>\<Prod>j = Suc i..<?n. ?b j\<bar> \<le> INT_MAX"
      using Nfit [of "Suc i"] that by (simp add: N_def)
    have "\<bar>c sdiv N (Suc i)\<bar> \<le> \<bar>c\<bar>" by (rule sdiv_abs_le)
    then have q: "c sdiv N (Suc i) \<noteq> INT_MIN"
      using c cM by (auto simp: INT_MIN_def INT_MAX_def)
    have c0: "c \<noteq> INT_MIN" using c by (auto simp: INT_MIN_def)
    from GetBinFromCategory_at_axis [OF that refl last after f, of c] show ?thesis
      using c0 q nz [OF that] by (simp add: N_def d_def)
  qed
  have "map (\<lambda>var. GetBinFromCategory h var c) (fVariables h) = map Inr bin"
    by (rule nth_equalityI) (simp_all add: bin_def dec)
  moreover have "FindEventCategory_sum (fVariables h) (fVariableLimits h) bin 0 0 = c"
  proof -
    have S_eq: "S k = c smod N k" if "k \<le> ?n" for k
      using decode_encode_sum [OF that, of c ?b]
      by (simp add: S_def w_def d_def N_def smod_eq_minus)
    have S_rng: "0 \<le> S k \<and> S k \<le> c" if "k \<le> ?n" for k
      using smod_nonneg_range [of c "N k"] c S_eq [OF that] by simp
    have S0: "S 0 = c"
      using S_eq [of 0] c by (simp add: N_def smod_eq_minus sdiv_small)
    have S_step: "S i = w i + S (Suc i)" if "i < ?n" for i
      using that by (simp add: S_def sum.atLeast_Suc_lessThan)
    have w_rng: "\<bar>w i\<bar> \<le> INT_MAX" if "i < ?n" for i
      using S_step [OF that] S_rng [of i] S_rng [of "Suc i"] that cM by linarith
    have temp: "FindEventCategory_temp (fVariables h) (fVariableLimits h) bin i i 1 = w i"
      if "i < ?n" for i
    proof -
      have bi: "bin ! i = d i" using that by (simp add: bin_def)
      have "FindEventCategory_temp (fVariables h) (fVariableLimits h) bin i i 1 =
            bin ! i * (\<Prod>j = Suc i..<?n. ?b j)"
      proof (rule FindEventCategory_temp_weight [OF that])
        show "\<forall>j. i < j \<and> j < ?n \<longrightarrow> ?b j \<noteq> 0" using nz by simp
        show "\<bar>bin ! i * (\<Prod>j = Suc i..<?n. ?b j)\<bar> \<le> INT_MAX"
          using w_rng [OF that] by (simp add: bi w_def N_def)
      qed
      then show ?thesis by (simp add: bi w_def N_def)
    qed
    have "FindEventCategory_sum (fVariables h) (fVariableLimits h) bin 0 0 =
          0 + (\<Sum>i = 0..<?n. w i)"
    proof (rule FindEventCategory_sum_eq)
      show "0 \<le> ?n" by simp
      show "\<forall>i. 0 \<le> i \<and> i < ?n \<longrightarrow>
              FindEventCategory_temp (fVariables h) (fVariableLimits h) bin i i 1 = w i"
        using temp by simp
      show "\<forall>k. 0 < k \<and> k \<le> ?n \<longrightarrow> \<bar>0 + (\<Sum>i = 0..<k. w i)\<bar> \<le> INT_MAX"
      proof (intro allI impI)
        fix k assume k: "0 < k \<and> k \<le> ?n"
        have "(\<Sum>i = 0..<k. w i) + S k = S 0"
          unfolding S_def using k sum.atLeastLessThan_concat [of 0 k ?n w] by simp
        then have "(\<Sum>i = 0..<k. w i) = c - S k" using S0 by simp
        then show "\<bar>0 + (\<Sum>i = 0..<k. w i)\<bar> \<le> INT_MAX"
          using S_rng [of k] k cM by linarith
      qed
    qed
    then show ?thesis using S0 by (simp add: S_def)
  qed
  ultimately show "\<exists>bin. map (\<lambda>var. GetBinFromCategory h var c) (fVariables h) = map Inr bin \<and>
                   FindEventCategory_sum (fVariables h) (fVariableLimits h) bin 0 0 = c"
    by blast
next
  let ?n = "length (fVariables h)"
  let ?b = "binCount (fVariableLimits h)"
  fix vals vals' :: "int \<Rightarrow> 'a float"
  assume asc: "ascending_axes h"
    and rng: "(\<forall>i<?n. in_range (fVariableLimits h ! i) (vals (fVariables h ! i))) \<and>
              (\<forall>i<?n. in_range (fVariableLimits h ! i) (vals' (fVariables h ! i)))"
  note r = FindEventCategory_in_range [OF assms(1) asc assms(2) conjunct1 [OF rng] fit]
  note r' = FindEventCategory_in_range [OF assms(1) asc assms(2) conjunct2 [OF rng] fit]
  let ?B = "binValue (fVariables h) (fVariableLimits h) vals"
  let ?B' = "binValue (fVariables h) (fVariableLimits h) vals'"
  show "fst (FindEventCategory h vals) = fst (FindEventCategory h vals') \<longleftrightarrow>
        (\<forall>i<?n. ?B i = ?B' i)"
  proof
    assume "fst (FindEventCategory h vals) = fst (FindEventCategory h vals')"
    then have "(\<Sum>i = 0..<?n. ?B i * (\<Prod>j = Suc i..<?n. ?b j)) =
               (\<Sum>i = 0..<?n. ?B' i * (\<Prod>j = Suc i..<?n. ?b j))"
      unfolding r(1) r'(1) .
    from encode_inj [OF le0 _ _ this] r(2) r'(2) show "\<forall>i<?n. ?B i = ?B' i"
      by simp
  next
    assume "\<forall>i<?n. ?B i = ?B' i"
    then show "fst (FindEventCategory h vals) = fst (FindEventCategory h vals')"
      unfolding r(1) r'(1) by (intro sum.cong) simp_all
  qed
qed

theorem decode_encode_roundtrip_witness:
  "consistent scenario \<and> fVariables scenario \<noteq> [] \<and> distinct (fVariables scenario) \<and>
   (0::int) \<le> 2 \<and> 2 < (\<Prod>j = 0..<length (fVariables scenario). binCount (fVariableLimits scenario) j) \<and>
   (\<exists>bin. map (\<lambda>var. GetBinFromCategory scenario var 2) (fVariables scenario) = map Inr bin \<and>
          FindEventCategory_sum (fVariables scenario) (fVariableLimits scenario) bin 0 0 = 2) \<and>
   (\<Prod>j = 0..<length (fVariables scenario). binCount (fVariableLimits scenario) j) \<le> INT_MAX \<and>
   ascending_axes scenario \<and>
   in_range (fVariableLimits scenario ! 0) (observables 15 0 (fVariables scenario ! 0)) \<and>
   in_range (fVariableLimits scenario ! 1) (observables 15 0 (fVariables scenario ! 1)) \<and>
   in_range (fVariableLimits scenario ! 0) (observables 17 0 (fVariables scenario ! 0)) \<and>
   in_range (fVariableLimits scenario ! 1) (observables 17 0 (fVariables scenario ! 1)) \<and>
   binValue (fVariables scenario) (fVariableLimits scenario) (observables 15 0) 0 =
     binValue (fVariables scenario) (fVariableLimits scenario) (observables 17 0) 0 \<and>
   binValue (fVariables scenario) (fVariableLimits scenario) (observables 15 0) 1 =
     binValue (fVariables scenario) (fVariableLimits scenario) (observables 17 0) 1 \<and>
   fst (FindEventCategory scenario (observables 15 0)) = fst (FindEventCategory scenario (observables 17 0))"
proof -
  note t = decode_encode_roundtrip [OF scenario_facts(1,3) scenario_distinct scenario_fit]
  have c: "(0::int) \<le> 2 \<and> 2 < (\<Prod>j = 0..<length (fVariables scenario). binCount (fVariableLimits scenario) j)"
    by (simp add: scenario_total)
  have r: "in_range (fVariableLimits scenario ! 0) (observables 15 0 (fVariables scenario ! 0))"
    "in_range (fVariableLimits scenario ! 1) (observables 15 0 (fVariables scenario ! 1))"
    "in_range (fVariableLimits scenario ! 0) (observables 17 0 (fVariables scenario ! 0))"
    "in_range (fVariableLimits scenario ! 1) (observables 17 0 (fVariables scenario ! 1))"
    by (simp_all add: scenario_def observables_def in_range_def)
  have b: "binValue (fVariables scenario) (fVariableLimits scenario) (observables 15 0) 0 =
     binValue (fVariables scenario) (fVariableLimits scenario) (observables 17 0) 0"
    "binValue (fVariables scenario) (fVariableLimits scenario) (observables 15 0) 1 =
     binValue (fVariables scenario) (fVariableLimits scenario) (observables 17 0) 1"
    by (simp_all add: scenario_def observables_def binValue_def BinarySearch_def GetSize_def
        lower_bound.simps Let_def)
  have "\<forall>i<length (fVariables scenario).
      binValue (fVariables scenario) (fVariableLimits scenario) (observables 15 0) i =
      binValue (fVariables scenario) (fVariableLimits scenario) (observables 17 0) i"
    using b by (simp add: scenario_def less_Suc_eq numeral_2_eq_2)
  with t [THEN conjunct2, rule_format, OF scenario_facts(2) conjI [OF scenario_in_range scenario_in_range']]
  have e: "fst (FindEventCategory scenario (observables 15 0)) = fst (FindEventCategory scenario (observables 17 0))"
    by blast
  from t [THEN conjunct1, rule_format, OF c] c e b r scenario_facts scenario_distinct scenario_fit
  show ?thesis by blast
qed

text \<open>
  Without the bound the claim fails: with seventeen axes of four bins the local
  \<open>norm\<close> of \<open>GetBinFromCategory\<close> reaches \<open>4^16\<close>, which is 0 in 32 bits, and decoding the
  category 5 on the first axis divides by zero.
\<close>

theorem decode_encode_roundtrip_counterexample:
  "consistent seventeen_axes \<and> fVariables seventeen_axes \<noteq> [] \<and>
   distinct (fVariables seventeen_axes) \<and> (0::int) \<le> 5 \<and>
   5 < prod (binCount (fVariableLimits seventeen_axes)) {0..<length (fVariables seventeen_axes)} \<and>
   prod (binCount (fVariableLimits seventeen_axes)) {0..<length (fVariables seventeen_axes)}
     = 17179869184 \<and>
   GetBinFromCategory seventeen_axes (fVariables seventeen_axes ! 0) 5 = Inl DivisionByZero"
  by code_simp

text \<open>
  Claim C2, for grids that fit the 32-bit \<^verbatim>\<open>int\<close>. With at least one registered axis,
  ascending edges, every registered value inside the edge range of its axis and a product
  of the bin counts of at most \<open>INT_MAX\<close>, \<open>FindEventCategory\<close> returns the sum over the
  axes \<open>i\<close>, in registration order, of the bin of axis \<open>i\<close> times the product of the bin
  counts of the axes registered after \<open>i\<close>, and the result lies in \<open>[0, totalCells)\<close>.
\<close>

theorem FindEventCategory_mixed_radix:
  assumes "consistent h" "ascending_axes h" "fVariables h \<noteq> []"
    and "\<forall>i<length (fVariables h). in_range (fVariableLimits h ! i) (vals (fVariables h ! i))"
    and "(\<Prod>j = 0..<length (fVariables h). binCount (fVariableLimits h) j) \<le> INT_MAX"
  shows "fst (FindEventCategory h vals) =
           (\<Sum>i = 0..<length (fVariables h).
              binValue (fVariables h) (fVariableLimits h) vals i *
              (\<Prod>j = Suc i..<length (fVariables h). binCount (fVariableLimits h) j)) \<and>
         0 \<le> fst (FindEventCategory h vals) \<and>
         fst (FindEventCategory h vals) < (\<Prod>j = 0..<length (fVariables h). binCount (fVariableLimits h) j)"
proof -
  note r = FindEventCategory_in_range [OF assms]
  have "\<forall>i. 0 \<le> i \<and> i < length (fVariables h) \<longrightarrow>
           0 \<le> binValue (fVariables h) (fVariableLimits h) vals i \<and>
           binValue (fVariables h) (fVariableLimits h) vals i < binCount (fVariableLimits h) i"
    using r(2) by simp
  from encode_range [OF le0 this] show ?thesis
    unfolding r(1) by simp
qed

theorem FindEventCategory_mixed_radix_witness:
  "consistent scenario \<and> ascending_axes scenario \<and> fVariables scenario \<noteq> [] \<and>
   in_range (fVariableLimits scenario ! 0) (observables 15 0 (fVariables scenario ! 0)) \<and>
   in_range (fVariableLimits scenario ! 1) (observables 15 0 (fVariables scenario ! 1)) \<and>
   (\<Prod>j = 0..<length (fVariables scenario). binCount (fVariableLimits scenario) j) \<le> INT_MAX \<and>
   fst (FindEventCategory scenario (observables 15 0)) =
           (\<Sum>i = 0..<length (fVariables scenario).
              binValue (fVariables scenario) (fVariableLimits scenario) (observables 15 0) i *
              (\<Prod>j = Suc i..<length (fVariables scenario). binCount (fVariableLimits scenario) j)) \<and>
   0 \<le> fst (FindEventCategory scenario (observables 15 0)) \<and>
   fst (FindEventCategory scenario (observables 15 0)) < 3"
proof -
  have r: "in_range (fVariableLimits scenario ! 0) (observables 15 0 (fVariables scenario ! 0))"
    "in_range (fVariableLimits scenario ! 1) (observables 15 0 (fVariables scenario ! 1))"
    by (simp_all add: scenario_def observables_def in_range_def)
  note t = FindEventCategory_mixed_radix [OF scenario_facts scenario_in_range scenario_fit]
  show ?thesis
    using scenario_facts r t scenario_fit unfolding scenario_total by blast
qed

text \<open>
  Without the bound the claim fails: with sixteen axes of four bins, a grid of \<open>2^32\<close>
  cells, and the in-range values \<open>(2, 0, ..., 0)\<close> the sum is \<open>2 * 4^15 = 2^31\<close>, and the 32-bit \<open>tempCategory\<close>
  that holds it is \<open>INT_MIN\<close>: the result is negative.
\<close>

theorem FindEventCategory_mixed_radix_counterexample:
  "consistent sixteen_axes \<and> ascending_axes sixteen_axes \<and> fVariables sixteen_axes \<noteq> [] \<and>
   values_in_range sixteen_axes two_then_zeros \<and>
   prod (binCount (fVariableLimits sixteen_axes)) {0..<length (fVariables sixteen_axes)}
     = 4294967296 \<and>
   fst (FindEventCategory sixteen_axes two_then_zeros) = - 2147483648 \<and>
   fst (FindEventCategory sixteen_axes two_then_zeros) < 0"
  by code_simp

text \<open>
  Claim C3. Registering the edges \<open>[0, 10, 20, 30]\<close> and then \<open>[-1, 1]\<close> gives the
  two-axis configuration \<open>scenario\<close>; there the vector \<open>(15, 0)\<close> has category 1, the
  vector \<open>(25, 0)\<close> category 2, the vector \<open>(35, 0)\<close> the sentinel \<open>-1\<close>, and category 2
  decodes to bin 2 on the first axis and bin 0 on the second.
\<close>

theorem scenario_categories:
  "(case AddMixingVariable SetUseVariable 0 4 [Val 0, Val 10, Val 20, Val 30] (MixingHandler_new, reg) of
      Inl e \<Rightarrow> Inl e
    | Inr s \<Rightarrow> AddMixingVariable SetUseVariable 1 2 [Val (- 1), Val 1] s)
     = Inr (scenario, SetUseVariable 1 (SetUseVariable 0 reg)) \<and>
   fst (FindEventCategory scenario (observables 15 0)) = 1 \<and>
   fst (FindEventCategory scenario (observables 25 0)) = 2 \<and>
   fst (FindEventCategory scenario (observables 35 0)) = - 1 \<and>
   GetBinFromCategory scenario 0 2 = Inr 2 \<and>
   GetBinFromCategory scenario 1 2 = Inr 0"
proof (intro conjI)
  show "(case AddMixingVariable SetUseVariable 0 4 [Val 0, Val 10, Val 20, Val 30] (MixingHandler_new, reg) of
      Inl e \<Rightarrow> Inl e
    | Inr s \<Rightarrow> AddMixingVariable SetUseVariable 1 2 [Val (- 1), Val 1] s)
     = Inr (scenario, SetUseVariable 1 (SetUseVariable 0 reg))"
    by (simp add: AddMixingVariable_def TArrayF_Set_def MixingHandler_new_def scenario_def)
  note ev = scenario_def observables_def FindEventCategory_def Init_def
    FindEventCategory_bins.simps FindEventCategory_sum.simps FindEventCategory_temp.simps
    BinarySearch_def lower_bound.simps GetSize_def Let_def int32_def
  show "fst (FindEventCategory scenario (observables 15 0)) = 1"
    by (simp add: ev)
  show "fst (FindEventCategory scenario (observables 25 0)) = 2"
    by (simp add: ev)
  show "fst (FindEventCategory scenario (observables 35 0)) = - 1"
    by (simp add: ev)
  note dec = scenario_def GetBinFromCategory_def GetBinFromCategory_scan.simps
    GetBinFromCategory_norm.simps GetSize_def Let_def signed_divide_int_def signed_modulo_int_def
    int32_def INT_MIN_def
  show "GetBinFromCategory scenario 0 2 = Inr 2"
    by (simp add: dec)
  show "GetBinFromCategory scenario 1 2 = Inr 0"
    by (simp add: dec)
qed

text \<open>
  Claim C4. For a registered axis with strictly ascending edges, the bin that
  \<open>FindEventCategory\<close> computes for a value \<open>v\<close> is \<open>i\<close> exactly when
  \<open>e\<^sub>i \<le> v < e\<^sub>i\<^sub>+\<^sub>1\<close>, and it is the bin stored for the axis whenever the first loop
  completes. For an in-range vector the first loop does complete with these bins on every
  axis, and, when the grid fits the 32-bit \<^verbatim>\<open>int\<close>, the category returned is their
  mixed-radix sum and not the sentinel. A value below the first edge, or at or above the
  last edge, makes the whole categorization return \<open>-1\<close>.
\<close>

theorem FindEventCategory_half_open_bins:
  assumes "consistent h" "a < length (fVariables h)" "ascending (fVariableLimits h ! a)"
  shows "(\<forall>i. i + 1 < length (fVariableLimits h ! a) \<longrightarrow>
            (binValue (fVariables h) (fVariableLimits h) vals a = int i \<longleftrightarrow>
             fle (fVariableLimits h ! a ! i) (vals (fVariables h ! a)) \<and>
             fless (vals (fVariables h ! a)) (fVariableLimits h ! a ! (i + 1)))) \<and>
         (\<forall>bin. FindEventCategory_bins (fVariables h) (fVariableLimits h) vals 0 [] = Some bin \<longrightarrow>
            bin ! a = binValue (fVariables h) (fVariableLimits h) vals a) \<and>
         (ascending_axes h \<and>
          (\<forall>j<length (fVariables h). in_range (fVariableLimits h ! j) (vals (fVariables h ! j))) \<longrightarrow>
          FindEventCategory_bins (fVariables h) (fVariableLimits h) vals 0 [] =
            Some (map (binValue (fVariables h) (fVariableLimits h) vals) [0..<length (fVariables h)])) \<and>
         (ascending_axes h \<and>
          (\<forall>j<length (fVariables h). in_range (fVariableLimits h ! j) (vals (fVariables h ! j))) \<and>
          (\<Prod>j = 0..<length (fVariables h). binCount (fVariableLimits h) j) \<le> INT_MAX \<longrightarrow>
          fst (FindEventCategory h vals) =
            (\<Sum>i = 0..<length (fVariables h).
               binValue (fVariables h) (fVariableLimits h) vals i *
               (\<Prod>j = Suc i..<length (fVariables h). binCount (fVariableLimits h) j)) \<and>
          fst (FindEventCategory h vals) \<noteq> - 1) \<and>
         (fVariableLimits h ! a \<noteq> [] \<and>
          (fless (vals (fVariables h ! a)) (hd (fVariableLimits h ! a)) \<or>
           fle (last (fVariableLimits h ! a)) (vals (fVariables h ! a))) \<longrightarrow>
          fst (FindEventCategory h vals) = - 1)"
proof (intro conjI allI impI)
  fix i assume "i + 1 < length (fVariableLimits h ! a)"
  then show "binValue (fVariables h) (fVariableLimits h) vals a = int i \<longleftrightarrow>
             fle (fVariableLimits h ! a ! i) (vals (fVariables h ! a)) \<and>
             fless (vals (fVariables h ! a)) (fVariableLimits h ! a ! (i + 1))"
    using BinarySearch_bin_iff [OF assms(3)] by (simp add: binValue_def GetSize_def)
next
  fix bin assume "FindEventCategory_bins (fVariables h) (fVariableLimits h) vals 0 [] = Some bin"
  then have "bin = map (binValue (fVariables h) (fVariableLimits h) vals) [0..<length (fVariables h)]"
    by (simp add: FindEventCategory_bins_closed split: if_splits)
  then show "bin ! a = binValue (fVariables h) (fVariableLimits h) vals a"
    using assms(2) by simp
next
  assume "ascending_axes h \<and>
          (\<forall>j<length (fVariables h). in_range (fVariableLimits h ! j) (vals (fVariables h ! j)))"
  then have "\<forall>k<length (fVariables h).
           binValue (fVariables h) (fVariableLimits h) vals k \<noteq> - 1 \<and>
           binValue (fVariables h) (fVariableLimits h) vals k \<noteq> binCount (fVariableLimits h) k"
    using binValue_valid_iff [OF assms(1)] by blast
  then show "FindEventCategory_bins (fVariables h) (fVariableLimits h) vals 0 [] =
            Some (map (binValue (fVariables h) (fVariableLimits h) vals) [0..<length (fVariables h)])"
    by (rule FindEventCategory_bins_valid)
next
  assume a: "ascending_axes h \<and>
          (\<forall>j<length (fVariables h). in_range (fVariableLimits h ! j) (vals (fVariables h ! j))) \<and>
          (\<Prod>j = 0..<length (fVariables h). binCount (fVariableLimits h) j) \<le> INT_MAX"
  have ne: "fVariables h \<noteq> []" using assms(2) by auto
  note r = FindEventCategory_in_range [OF assms(1) conjunct1 [OF a] ne
      conjunct1 [OF conjunct2 [OF a]] conjunct2 [OF conjunct2 [OF a]]]
  show "fst (FindEventCategory h vals) =
            (\<Sum>i = 0..<length (fVariables h).
               binValue (fVariables h) (fVariableLimits h) vals i *
               (\<Prod>j = Suc i..<length (fVariables h). binCount (fVariableLimits h) j))"
    by (rule r(1))
  have "\<forall>i. 0 \<le> i \<and> i < length (fVariables h) \<longrightarrow>
           0 \<le> binValue (fVariables h) (fVariableLimits h) vals i \<and>
           binValue (fVariables h) (fVariableLimits h) vals i < binCount (fVariableLimits h) i"
    using r(2) by simp
  from encode_range [OF le0 this] show "fst (FindEventCategory h vals) \<noteq> - 1"
    unfolding r(1) by simp
next
  assume out: "fVariableLimits h ! a \<noteq> [] \<and>
          (fless (vals (fVariables h ! a)) (hd (fVariableLimits h ! a)) \<or>
           fle (last (fVariableLimits h ! a)) (vals (fVariables h ! a)))"
  then have "\<not> in_range (fVariableLimits h ! a) (vals (fVariables h ! a))"
    by (auto simp: in_range_def dest: fle_not_fless)
  then have "binValue (fVariables h) (fVariableLimits h) vals a = - 1 \<or>
             binValue (fVariables h) (fVariableLimits h) vals a = binCount (fVariableLimits h) a"
    using BinarySearch_in_range [OF assms(3), of "vals (fVariables h ! a)"]
    by (simp add: binValue_def binCount_def)
  then have inv: "\<not> (\<forall>k<length (fVariables h).
           binValue (fVariables h) (fVariableLimits h) vals k \<noteq> - 1 \<and>
           binValue (fVariables h) (fVariableLimits h) vals k \<noteq> binCount (fVariableLimits h) k)"
    using assms(2) by blast
  have ne: "fVariables h \<noteq> []" using assms(2) by auto
  from ne inv show "fst (FindEventCategory h vals) = - 1"
    by (rule FindEventCategory_invalid)
qed

theorem FindEventCategory_half_open_bins_witness:
  "consistent scenario \<and> 0 < length (fVariables scenario) \<and> ascending (fVariableLimits scenario ! 0) \<and>
   1 + 1 < length (fVariableLimits scenario ! 0) \<and>
   fle (fVariableLimits scenario ! 0 ! 1) (observables 15 0 (fVariables scenario ! 0)) \<and>
   fless (observables 15 0 (fVariables scenario ! 0)) (fVariableLimits scenario ! 0 ! (1 + 1)) \<and>
   binValue (fVariables scenario) (fVariableLimits scenario) (observables 15 0) 0 = 1 \<and>
   ascending_axes scenario \<and>
   in_range (fVariableLimits scenario ! 0) (observables 15 0 (fVariables scenario ! 0)) \<and>
   in_range (fVariableLimits scenario ! 1) (observables 15 0 (fVariables scenario ! 1)) \<and>
   (\<Prod>j = 0..<length (fVariables scenario). binCount (fVariableLimits scenario) j) \<le> INT_MAX \<and>
   FindEventCategory_bins (fVariables scenario) (fVariableLimits scenario) (observables 15 0) 0 [] =
     Some (map (binValue (fVariables scenario) (fVariableLimits scenario) (observables 15 0))
            [0..<length (fVariables scenario)]) \<and>
   map (binValue (fVariables scenario) (fVariableLimits scenario) (observables 15 0))
     [0..<length (fVariables scenario)] = [1, 0] \<and>
   fst (FindEventCategory scenario (observables 15 0)) \<noteq> - 1 \<and>
   fVariableLimits scenario ! 0 \<noteq> [] \<and>
   fle (last (fVariableLimits scenario ! 0)) (observables 30 0 (fVariables scenario ! 0)) \<and>
   fst (FindEventCategory scenario (observables 30 0)) = - 1"
proof -
  have h: "consistent scenario" "0 < length (fVariables scenario)"
    "ascending (fVariableLimits scenario ! 0)"
    by (simp_all add: scenario_def consistent_def)
  have i: "1 + 1 < length (fVariableLimits scenario ! 0)"
    by (simp add: scenario_def)
  have b: "fle (fVariableLimits scenario ! 0 ! 1) (observables 15 0 (fVariables scenario ! 0)) \<and>
           fless (observables 15 0 (fVariables scenario ! 0)) (fVariableLimits scenario ! 0 ! (1 + 1))"
    by (simp add: scenario_def observables_def)
  have r: "in_range (fVariableLimits scenario ! 0) (observables 15 0 (fVariables scenario ! 0))"
    "in_range (fVariableLimits scenario ! 1) (observables 15 0 (fVariables scenario ! 1))"
    by (simp_all add: scenario_def observables_def in_range_def)
  have o: "fVariableLimits scenario ! 0 \<noteq> [] \<and>
      (fless (observables 30 0 (fVariables scenario ! 0)) (hd (fVariableLimits scenario ! 0)) \<or>
       fle (last (fVariableLimits scenario ! 0)) (observables 30 0 (fVariables scenario ! 0)))"
    by (simp add: scenario_def observables_def)
  have m: "map (binValue (fVariables scenario) (fVariableLimits scenario) (observables 15 0))
     [0..<length (fVariables scenario)] = [1, 0]"
    by code_simp
  note t = FindEventCategory_half_open_bins [OF h, of "observables 15 0"]
  from t [THEN conjunct1, rule_format, OF i] b
  have "binValue (fVariables scenario) (fVariableLimits scenario) (observables 15 0) 0 = 1"
    by simp
  moreover from t [THEN conjunct2, THEN conjunct2, THEN conjunct1, rule_format,
      OF conjI [OF scenario_facts(2) scenario_in_range]]
  have "FindEventCategory_bins (fVariables scenario) (fVariableLimits scenario) (observables 15 0) 0 [] =
     Some (map (binValue (fVariables scenario) (fVariableLimits scenario) (observables 15 0))
            [0..<length (fVariables scenario)])" .
  moreover from t [THEN conjunct2, THEN conjunct2, THEN conjunct2, THEN conjunct1, rule_format,
      OF conjI [OF scenario_facts(2) conjI [OF scenario_in_range scenario_fit]]]
  have "fst (FindEventCategory scenario (observables 15 0)) \<noteq> - 1" by blast
  moreover from FindEventCategory_half_open_bins [OF h, of "observables 30 0",
      THEN conjunct2, THEN conjunct2, THEN conjunct2, THEN conjunct2, rule_format, OF o]
  have "fst (FindEventCategory scenario (observables 30 0)) = - 1" .
  moreover have "fle (last (fVariableLimits scenario ! 0)) (observables 30 0 (fVariables scenario ! 0))"
    by (simp add: scenario_def observables_def)
  ultimately show ?thesis using h i b o r m scenario_facts(2) scenario_fit by blast
qed

text \<open>
  Claim C5, for grids that fit the 32-bit \<^verbatim>\<open>int\<close>. With ascending edges and a product of
  the bin counts of at most \<open>INT_MAX\<close>, \<open>FindEventCategory\<close> returns \<open>-1\<close> exactly when no
  axis is registered or some registered value lies outside \<open>[firstEdge, lastEdge)\<close> of its
  axis; with no axis registered \<open>GetBinFromCategory\<close> returns \<open>-1\<close> for every identifier
  and category. In both operations the sentinel is an ordinary result: \<open>FindEventCategory\<close>
  has no fault among its results, and \<open>GetBinFromCategory\<close> answers \<open>Inr (-1)\<close>.
\<close>

theorem FindEventCategory_sentinel_iff:
  assumes "consistent h" "ascending_axes h"
    and "(\<Prod>j = 0..<length (fVariables h). binCount (fVariableLimits h) j) \<le> INT_MAX"
  shows "(fst (FindEventCategory h vals) = - 1 \<longleftrightarrow>
            fVariables h = [] \<or>
            (\<exists>i<length (fVariables h). \<not> in_range (fVariableLimits h ! i) (vals (fVariables h ! i)))) \<and>
         (fVariables h = [] \<longrightarrow> (\<forall>var category. GetBinFromCategory h var category = Inr (- 1)))"
proof (intro conjI impI allI)
  show "fst (FindEventCategory h vals) = - 1 \<longleftrightarrow>
            fVariables h = [] \<or>
            (\<exists>i<length (fVariables h). \<not> in_range (fVariableLimits h ! i) (vals (fVariables h ! i)))"
  proof (cases "fVariables h = []")
    case True
    then show ?thesis by (simp add: FindEventCategory_def)
  next
    case ne: False
    show ?thesis
    proof (cases "\<forall>i<length (fVariables h). in_range (fVariableLimits h ! i) (vals (fVariables h ! i))")
      case True
      from FindEventCategory_in_range [OF assms(1,2) ne True assms(3)]
      have "0 \<le> fst (FindEventCategory h vals)"
        using encode_range [of 0 "length (fVariables h)"
            "binValue (fVariables h) (fVariableLimits h) vals" "binCount (fVariableLimits h)"]
        by simp
      then show ?thesis using True ne by auto
    next
      case False
      then have "\<not> (\<forall>k<length (fVariables h).
           binValue (fVariables h) (fVariableLimits h) vals k \<noteq> - 1 \<and>
           binValue (fVariables h) (fVariableLimits h) vals k \<noteq> binCount (fVariableLimits h) k)"
        using binValue_valid_iff [OF assms(1,2)] by blast
      with ne have "fst (FindEventCategory h vals) = - 1"
        by (rule FindEventCategory_invalid)
      then show ?thesis using False by blast
    qed
  qed
next
  fix var category assume "fVariables h = []"
  then show "GetBinFromCategory h var category = Inr (- 1)"
    by (simp add: GetBinFromCategory_def)
qed

theorem FindEventCategory_sentinel_iff_witness:
  "consistent scenario \<and> ascending_axes scenario \<and>
   (\<Prod>j = 0..<length (fVariables scenario). binCount (fVariableLimits scenario) j) \<le> INT_MAX \<and>
   (\<exists>i<length (fVariables scenario).
      \<not> in_range (fVariableLimits scenario ! i) (observables 35 0 (fVariables scenario ! i))) \<and>
   fst (FindEventCategory scenario (observables 35 0)) = - 1 \<and>
   fst (FindEventCategory scenario (observables 15 0)) \<noteq> - 1 \<and>
   consistent (MixingHandler_new :: real MixingHandler) \<and>
   ascending_axes (MixingHandler_new :: real MixingHandler) \<and>
   fVariables (MixingHandler_new :: real MixingHandler) = [] \<and>
   fst (FindEventCategory (MixingHandler_new :: real MixingHandler) (observables 15 0)) = - 1 \<and>
   GetBinFromCategory (MixingHandler_new :: real MixingHandler) 0 2 = Inr (- 1)"
proof -
  have out: "\<exists>i<length (fVariables scenario).
      \<not> in_range (fVariableLimits scenario ! i) (observables 35 0 (fVariables scenario ! i))"
    by (rule exI [of _ 0]) (simp add: scenario_def observables_def in_range_def)
  have new: "consistent (MixingHandler_new :: real MixingHandler)"
    "ascending_axes (MixingHandler_new :: real MixingHandler)"
    "fVariables (MixingHandler_new :: real MixingHandler) = []"
    by (simp_all add: MixingHandler_new_def consistent_def ascending_axes_def)
  have newfit: "(\<Prod>j = 0..<length (fVariables (MixingHandler_new :: real MixingHandler)).
      binCount (fVariableLimits (MixingHandler_new :: real MixingHandler)) j) \<le> INT_MAX"
    by (simp add: MixingHandler_new_def INT_MAX_def)
  note s = FindEventCategory_sentinel_iff [OF scenario_facts(1,2) scenario_fit]
  note n = FindEventCategory_sentinel_iff [OF new(1,2) newfit]
  have "fst (FindEventCategory scenario (observables 35 0)) = - 1"
    using s [of "observables 35 0"] out by blast
  moreover have "fst (FindEventCategory scenario (observables 15 0)) \<noteq> - 1"
    using s [of "observables 15 0"] scenario_in_range scenario_facts(3) by blast
  moreover have "fst (FindEventCategory (MixingHandler_new :: real MixingHandler) (observables 15 0)) = - 1"
    using n [of "observables 15 0"] new(3) by blast
  moreover have "GetBinFromCategory (MixingHandler_new :: real MixingHandler) 0 2 = Inr (- 1)"
    using n [of "observables 15 0"] new(3) by blast
  ultimately show ?thesis using out new scenario_facts scenario_fit by blast
qed

text \<open>
  Without the bound the claim fails: with sixteen axes of four bins and every value 3,
  all in range, the category is \<open>4^16 - 1\<close>, which is \<open>-1\<close> in 32 bits.
\<close>

theorem FindEventCategory_sentinel_iff_counterexample:
  "consistent sixteen_axes \<and> ascending_axes sixteen_axes \<and> fVariables sixteen_axes \<noteq> [] \<and>
   values_in_range sixteen_axes all_threes \<and>
   fst (FindEventCategory sixteen_axes all_threes) = - 1"
  by code_simp

text \<open>
  Claim C6, with the conditions under which the function returns. With at least one
  registered axis, the scan of \<open>GetBinFromCategory\<close> assigns the local \<open>tempVar\<close> exactly
  when the identifier is registered, and the function reads \<open>tempVar\<close> unassigned exactly
  when the identifier is not registered: it does not return a not-found sentinel. For a
  registered identifier the function returns a bin when the handler is consistent, every
  axis has at least two edges and the product of the bin counts is at most \<open>INT_MAX\<close>.
\<close>

theorem GetBinFromCategory_unregistered:
  assumes "fVariables h \<noteq> []"
  shows "(GetBinFromCategory_scan (fVariables h) var 0 None \<noteq> None \<longleftrightarrow> var \<in> set (fVariables h)) \<and>
         (GetBinFromCategory h var category = Inl UninitializedRead \<longleftrightarrow> var \<notin> set (fVariables h)) \<and>
         (var \<in> set (fVariables h) \<and> consistent h \<and>
          (\<forall>edges\<in>set (fVariableLimits h). 2 \<le> length edges) \<and>
          (\<Prod>j = 0..<length (fVariables h). binCount (fVariableLimits h) j) \<le> INT_MAX \<longrightarrow>
          (\<exists>r. GetBinFromCategory h var category = Inr r))"
proof (intro conjI impI)
  show "GetBinFromCategory_scan (fVariables h) var 0 None \<noteq> None \<longleftrightarrow> var \<in> set (fVariables h)"
    by (rule GetBinFromCategory_scan_iff)
  show "GetBinFromCategory h var category = Inl UninitializedRead \<longleftrightarrow> var \<notin> set (fVariables h)"
  proof (cases "var \<in> set (fVariables h)")
    case True
    then have "GetBinFromCategory_scan (fVariables h) var 0 None \<noteq> None"
      using GetBinFromCategory_scan_iff [of "fVariables h" var] by blast
    then obtain k where "GetBinFromCategory_scan (fVariables h) var 0 None = Some k" by auto
    then have "GetBinFromCategory h var category \<noteq> Inl UninitializedRead"
      using assms by (simp add: GetBinFromCategory_def Let_def)
    with True show ?thesis by simp
  next
    case False
    then have "GetBinFromCategory_scan (fVariables h) var 0 None = None"
      using GetBinFromCategory_scan_iff [of "fVariables h" var] by simp
    then show ?thesis using False assms by (simp add: GetBinFromCategory_def)
  qed
next
  let ?n = "length (fVariables h)"
  let ?b = "binCount (fVariableLimits h)"
  assume a: "var \<in> set (fVariables h) \<and> consistent h \<and>
          (\<forall>edges\<in>set (fVariableLimits h). 2 \<le> length edges) \<and>
          (\<Prod>j = 0..<?n. ?b j) \<le> INT_MAX"
  then obtain k where k: "k < ?n" "fVariables h ! k = var"
      "\<forall>j. k < j \<and> j < ?n \<longrightarrow> fVariables h ! j \<noteq> var"
    using last_occurrence [of var "fVariables h"] by blast
  have pos: "0 < ?b j" if "j < ?n" for j
  proof -
    have "fVariableLimits h ! j \<in> set (fVariableLimits h)"
      using that a by (simp add: consistent_def)
    then have "2 \<le> length (fVariableLimits h ! j)" using a by blast
    then show ?thesis by (simp add: binCount_def GetSize_def)
  qed
  define N where "N = (\<Prod>j = Suc k..<?n. ?b j)"
  have Npos: "0 < N"
    unfolding N_def by (rule prod_pos) (simp add: pos)
  have total: "0 < (\<Prod>j = 0..<?n. ?b j)"
    by (rule prod_pos) (simp add: pos)
  have "\<bar>N\<bar> \<le> \<bar>\<Prod>j = 0..<?n. ?b j\<bar>"
    unfolding N_def using k(1) pos by (intro abs_prod_suffix_le) (auto simp: less_imp_neq [THEN not_sym])
  then have fit: "\<bar>\<Prod>j = Suc k..<?n. ?b j\<bar> \<le> INT_MAX"
    using a total by (simp add: N_def)
  have after: "\<forall>j. k < j \<and> j < ?n \<longrightarrow> ?b j \<noteq> 0"
    using pos by (simp add: less_imp_neq [THEN not_sym])
  have "N \<noteq> - 1" "?b k \<noteq> 0" "?b k \<noteq> - 1"
    using Npos pos [OF k(1)] by simp_all
  then show "\<exists>r. GetBinFromCategory h var category = Inr r"
    unfolding GetBinFromCategory_at_axis [OF k after fit] N_def by simp
qed

theorem GetBinFromCategory_unregistered_witness:
  "fVariables scenario \<noteq> [] \<and> 7 \<notin> set (fVariables scenario) \<and>
   GetBinFromCategory_scan (fVariables scenario) 7 0 None = None \<and>
   GetBinFromCategory scenario 7 2 = Inl UninitializedRead \<and>
   1 \<in> set (fVariables scenario) \<and> consistent scenario \<and>
   2 \<le> length (fVariableLimits scenario ! 0) \<and> 2 \<le> length (fVariableLimits scenario ! 1) \<and>
   (\<Prod>j = 0..<length (fVariables scenario). binCount (fVariableLimits scenario) j) \<le> INT_MAX \<and>
   (\<exists>r. GetBinFromCategory scenario 1 2 = Inr r)"
proof -
  have a: "7 \<notin> set (fVariables scenario)" "1 \<in> set (fVariables scenario)"
    "\<forall>edges\<in>set (fVariableLimits scenario). 2 \<le> length edges"
    by (simp_all add: scenario_def)
  have l: "2 \<le> length (fVariableLimits scenario ! 0)" "2 \<le> length (fVariableLimits scenario ! 1)"
    by (simp_all add: scenario_def)
  note t7 = GetBinFromCategory_unregistered [OF scenario_facts(3), of 7 2]
  note t1 = GetBinFromCategory_unregistered [OF scenario_facts(3), of 1 2]
  show ?thesis using t7 t1 a l scenario_facts scenario_fit by blast
qed

text \<open>
  A registered identifier alone does not make the function return: an axis with a
  single edge has no bin and the final remainder divides by zero, and with seventeen
  axes of four bins the 32-bit \<open>norm\<close> is 0.
\<close>

theorem GetBinFromCategory_unregistered_counterexample:
  "fVariables one_edge \<noteq> [] \<and> 5 \<in> set (fVariables one_edge) \<and>
   GetBinFromCategory one_edge 5 0 = Inl DivisionByZero \<and>
   fVariables seventeen_axes \<noteq> [] \<and> 0 \<in> set (fVariables seventeen_axes) \<and>
   GetBinFromCategory seventeen_axes 0 5 = Inl DivisionByZero"
  by code_simp

text \<open>
  Claim C7. \<open>GetMixingVariable\<close> returns \<open>-1\<close> for an identifier that was never
  registered, and the position of the last matching registration for an identifier that
  occurs at least once.
\<close>

theorem GetMixingVariable_last_match:
  "(var \<notin> set (fVariables h) \<longrightarrow> fst (GetMixingVariable h var) = - 1) \<and>
   (var \<in> set (fVariables h) \<longrightarrow>
      (\<exists>k<length (fVariables h). fst (GetMixingVariable h var) = int k \<and> fVariables h ! k = var \<and>
         (\<forall>j. k < j \<and> j < length (fVariables h) \<longrightarrow> fVariables h ! j \<noteq> var)))"
proof (intro conjI impI)
  assume "var \<notin> set (fVariables h)"
  then show "fst (GetMixingVariable h var) = - 1"
    unfolding GetMixingVariable_def fst_conv
    by (intro GetMixingVariable_loop_absent) (auto simp: in_set_conv_nth)
next
  assume "var \<in> set (fVariables h)"
  from last_occurrence [OF this] obtain k where k: "k < length (fVariables h)" "fVariables h ! k = var"
      "\<forall>j. k < j \<and> j < length (fVariables h) \<longrightarrow> fVariables h ! j \<noteq> var"
    by blast
  have "fst (GetMixingVariable h var) = int k"
    unfolding GetMixingVariable_def fst_conv
    using k by (intro GetMixingVariable_loop_last) simp_all
  with k show "\<exists>k<length (fVariables h). fst (GetMixingVariable h var) = int k \<and> fVariables h ! k = var \<and>
         (\<forall>j. k < j \<and> j < length (fVariables h) \<longrightarrow> fVariables h ! j \<noteq> var)"
    by blast
qed

theorem GetMixingVariable_last_match_witness:
  "5 \<in> set (fVariables duplicated) \<and> fst (GetMixingVariable duplicated 5) = 2 \<and>
   9 \<notin> set (fVariables duplicated) \<and> fst (GetMixingVariable duplicated 9) = - 1"
proof -
  have a: "5 \<in> set (fVariables duplicated)" "9 \<notin> set (fVariables duplicated)"
    by (simp_all add: duplicated_def)
  from GetMixingVariable_last_match [of 5 duplicated] a(1)
  obtain k where k: "k < length (fVariables duplicated)" "fst (GetMixingVariable duplicated 5) = int k"
    "fVariables duplicated ! k = 5"
    "\<forall>j. k < j \<and> j < length (fVariables duplicated) \<longrightarrow> fVariables duplicated ! j \<noteq> 5"
    by blast
  have "k < 3" using k(1) by (simp add: duplicated_def)
  then have "k = 0 \<or> k = 1 \<or> k = 2" by arith
  moreover have "k \<noteq> 0"
  proof
    assume "k = 0"
    with k(4) [rule_format, of 2] show False by (simp add: duplicated_def)
  qed
  moreover have "k \<noteq> 1" using k(3) by (auto simp: duplicated_def)
  ultimately have "k = 2" by blast
  then have "fst (GetMixingVariable duplicated 5) = 2" using k(2) by simp
  moreover have "fst (GetMixingVariable duplicated 9) = - 1"
    using GetMixingVariable_last_match [of 9 duplicated] a(2) by blast
  ultimately show ?thesis using a by blast
qed

text \<open>
  Claim C8. A second call of \<open>FindEventCategory\<close> with the same input, on the handler the
  first call left behind, returns the same category and leaves the same handler;
  \<open>Init\<close> is idempotent and keeps the identifiers and the edges.
\<close>

theorem FindEventCategory_repeatable:
  "fst (FindEventCategory (snd (FindEventCategory h vals)) vals) = fst (FindEventCategory h vals) \<and>
   snd (FindEventCategory (snd (FindEventCategory h vals)) vals) = snd (FindEventCategory h vals) \<and>
   Init (Init h) = Init h \<and>
   fVariables (Init h) = fVariables h \<and> fVariableLimits (Init h) = fVariableLimits h"
proof (intro conjI)
  show "fst (FindEventCategory (snd (FindEventCategory h vals)) vals) = fst (FindEventCategory h vals)"
    by (rule FindEventCategory_fst_fields) (simp_all add: FindEventCategory_state)
  show "snd (FindEventCategory (snd (FindEventCategory h vals)) vals) = snd (FindEventCategory h vals)"
    by (simp add: FindEventCategory_state)
  show "Init (Init h) = Init h" by (simp add: Init_eq)
qed simp_all

text \<open>
  Claim C9. Every sequence of queries keeps the identifiers and the edges; the handler it
  leaves is the one it was given or that handler with the flag set; once the flag is set
  the whole handler is left as it was. The flag is set by \<open>FindEventCategory\<close> whenever an
  axis is registered; \<open>GetBinFromCategory\<close>, \<open>GetMixingVariable\<close> and
  \<open>GetMixingVariableLimits\<close> leave the handler as it was.
\<close>

theorem queries_frame:
  "fVariables (queries_state qs h) = fVariables h \<and>
   fVariableLimits (queries_state qs h) = fVariableLimits h \<and>
   (queries_state qs h = h \<or> queries_state qs h = h\<lparr>fIsInitialized := True\<rparr>) \<and>
   (fIsInitialized h \<longrightarrow> queries_state qs h = h) \<and>
   (fVariables h \<noteq> [] \<longrightarrow> fIsInitialized (query_state (Q_FindEventCategory vals) h)) \<and>
   query_state (Q_GetBinFromCategory var category) h = h \<and>
   query_state (Q_GetMixingVariable var) h = h \<and>
   query_state (Q_GetMixingVariableLimits var) h = h"
proof -
  have seq: "queries_state qs h = h \<or>
             (queries_state qs h = h\<lparr>fIsInitialized := True\<rparr> \<and> \<not> fIsInitialized h)"
  proof (induction qs arbitrary: h)
    case Nil
    show ?case by simp
  next
    case (Cons q qs)
    from query_state_cases [of q h] show ?case
    proof
      assume "query_state q h = h"
      with Cons.IH [of h] show ?thesis by simp
    next
      assume q: "query_state q h = h\<lparr>fIsInitialized := True\<rparr> \<and> \<not> fIsInitialized h"
      with Cons.IH [of "h\<lparr>fIsInitialized := True\<rparr>"] show ?thesis by simp
    qed
  qed
  have "fVariables (queries_state qs h) = fVariables h"
    and "fVariableLimits (queries_state qs h) = fVariableLimits h"
    using seq by auto
  moreover have "queries_state qs h = h \<or> queries_state qs h = h\<lparr>fIsInitialized := True\<rparr>"
    using seq by blast
  moreover have "fIsInitialized h \<longrightarrow> queries_state qs h = h"
    using seq by blast
  moreover have "fVariables h \<noteq> [] \<longrightarrow> fIsInitialized (query_state (Q_FindEventCategory vals) h)"
    by (simp add: FindEventCategory_state)
  moreover have "query_state (Q_GetMixingVariable var) h = h"
    by (simp add: GetMixingVariable_def)
  moreover have "query_state (Q_GetMixingVariableLimits var) h = h"
    by (simp add: GetMixingVariableLimits_def)
  ultimately show ?thesis by simp
qed

theorem queries_frame_witness:
  "fVariables scenario \<noteq> [] \<and>
   fIsInitialized (query_state (Q_FindEventCategory (observables 15 0)) scenario) \<and>
   fIsInitialized (scenario\<lparr>fIsInitialized := True\<rparr>) \<and>
   queries_state [Q_GetMixingVariable 0, Q_FindEventCategory (observables 15 0),
                  Q_GetBinFromCategory 0 2, Q_GetMixingVariableLimits 1,
                  Q_FindEventCategory (observables 35 0)]
     (scenario\<lparr>fIsInitialized := True\<rparr>) = scenario\<lparr>fIsInitialized := True\<rparr>"
proof -
  let ?qs = "[Q_GetMixingVariable 0, Q_FindEventCategory (observables 15 0),
              Q_GetBinFromCategory 0 2, Q_GetMixingVariableLimits 1,
              Q_FindEventCategory (observables 35 0)]"
  have i: "fIsInitialized (scenario\<lparr>fIsInitialized := True\<rparr>)" by simp
  have "fIsInitialized (query_state (Q_FindEventCategory (observables 15 0)) scenario)"
    using queries_frame [of "[]" scenario "observables 15 0" 0 0] scenario_facts(3) by blast
  moreover have "queries_state ?qs (scenario\<lparr>fIsInitialized := True\<rparr>)
      = scenario\<lparr>fIsInitialized := True\<rparr>"
    using queries_frame [of ?qs "scenario\<lparr>fIsInitialized := True\<rparr>" "observables 15 0" 0 0] i
    by blast
  ultimately show ?thesis using i scenario_facts(3) by blast
qed

text \<open>
  Claim C10. For a bin count \<open>nBins \<ge> 0\<close> and a vector of at least \<open>nBins\<close> elements, the
  vector overload of \<open>AddMixingVariable\<close> gives the result of the pointer overload on an
  array holding the first \<open>nBins\<close> elements of the vector: the identifier appended, these
  \<open>nBins\<close> edges stored, the usage registry told once.
\<close>

theorem AddMixingVariable_vector_refines:
  assumes "0 \<le> nBins" "nat nBins \<le> length binLims"
  shows "AddMixingVariable_vector SetUseVariable var nBins binLims (h, reg) =
           AddMixingVariable SetUseVariable var nBins (take (nat nBins) binLims) (h, reg) \<and>
         AddMixingVariable_vector SetUseVariable var nBins binLims (h, reg) =
           Inr (h\<lparr>fVariables := fVariables h @ [var],
                  fVariableLimits := fVariableLimits h @ [take (nat nBins) binLims]\<rparr>,
                SetUseVariable var reg)"
proof -
  have copy: "AddMixingVariable_copy binLims nBins 0 [] = Inr (take (nat nBins) binLims)"
    using AddMixingVariable_copy_take [OF assms(2), of 0 "[]"] by simp
  have set: "TArrayF_Set nBins (take (nat nBins) binLims) = Inr (take (nat nBins) binLims)"
    using assms by (simp add: TArrayF_Set_def)
  show ?thesis
    using assms(1) by (simp add: AddMixingVariable_vector_def copy AddMixingVariable_def set)
qed

theorem AddMixingVariable_vector_refines_witness:
  "(0::int) \<le> 2 \<and> nat 2 \<le> length [Val 0, Val 1, Val (2::real)] \<and>
   AddMixingVariable_vector (\<lambda>var used. var # used) 3 2 [Val 0, Val 1, Val 2] (MixingHandler_new, []) =
   AddMixingVariable (\<lambda>var used. var # used) 3 2 [Val 0, Val (1::real)] (MixingHandler_new, []) \<and>
   AddMixingVariable_vector (\<lambda>var used. var # used) 3 2 [Val 0, Val 1, Val 2] (MixingHandler_new, []) =
   Inr (\<lparr>fIsInitialized = False, fVariableLimits = [[Val 0, Val (1::real)]], fVariables = [3]\<rparr>, [3])"
proof -
  have a: "(0::int) \<le> 2" "nat 2 \<le> length [Val 0, Val 1, Val (2::real)]" by simp_all
  note t = AddMixingVariable_vector_refines [OF a, of "\<lambda>var used. var # used" 3
      "MixingHandler_new :: real MixingHandler" "[]"]
  have tk: "take (nat 2) [Val 0, Val 1, Val (2::real)] = [Val 0, Val 1]"
    by (simp add: numeral_2_eq_2)
  have t1: "AddMixingVariable_vector (\<lambda>var used. var # used) 3 2 [Val 0, Val 1, Val 2] (MixingHandler_new, []) =
     AddMixingVariable (\<lambda>var used. var # used) 3 2 [Val 0, Val (1::real)] (MixingHandler_new, [])"
    using t [THEN conjunct1] unfolding tk .
  have t2: "AddMixingVariable_vector (\<lambda>var used. var # used) 3 2 [Val 0, Val 1, Val 2] (MixingHandler_new, []) =
     Inr (\<lparr>fIsInitialized = False, fVariableLimits = [[Val 0, Val (1::real)]], fVariables = [3]\<rparr>, [3])"
    using t [THEN conjunct2] unfolding tk by (simp add: MixingHandler_new_def)
  show ?thesis using a t1 t2 by (intro conjI)
qed

end
